theory Spec2Isabelle
  imports Main "HOL-Library.Sublist"
begin

section \<open>Data model\<close>

text \<open>
  The types of \<^verbatim>\<open>index.ts\<close>. The field \<^verbatim>\<open>id\<close> of a listing item is
  called \<open>topic_id\<close> here (\<open>id\<close> is the identity function of HOL), and the field
  \<^verbatim>\<open>created_at\<close> of a post is called \<open>post_created_at\<close>, since a record field
  is a constant of the theory and the listing item already has \<open>created_at\<close>.

  A JavaScript string is modelled as a \<open>string\<close>. Every character the code looks at
  (comma, line feed, double quote, \<open><\<close> and \<open>>\<close>) is ASCII, so the functions below behave
  the same on UTF-16 code units and on the bytes of the UTF-8 encoding.

  A \<^verbatim>\<open>Date\<close> is its time value: \<open>Some ms\<close> for a valid date, \<open>None\<close> for
  Invalid Date (whose time value is NaN).
\<close>

record TopicListItem =
  topic_id :: int
  title :: string
  slug :: string
  created_at :: string

record TopicList =
  topics :: "TopicListItem list"
  more_topics_url :: "string option"

record TopicListRes =
  topic_list :: TopicList

record Post =
  raw :: "string option"
  cooked :: "string option"
  post_created_at :: string

record PostStream =
  posts :: "Post list option"

record TopicDetail =
  post_stream :: "PostStream option"

type_synonym Date = "int option"

record CrawlParams =
  tag :: string
  since :: Date
  outputDir :: string

subsection \<open>Errors and the outside world\<close>

text \<open>
  A JavaScript \<^verbatim>\<open>Error\<close> is its message. A promise can reject with any value:
  with an \<^verbatim>\<open>Error\<close>, or with something else, of which only \<^verbatim>\<open>String(e)\<close>
  matters. \<open>toError\<close> is the \<^verbatim>\<open>catch\<close> function that every
  \<^verbatim>\<open>Effect.tryPromise\<close> of the source uses.
\<close>

datatype js_error = Error string

datatype thrown = ThrownError js_error | ThrownOther string

fun toError :: "thrown \<Rightarrow> js_error" where
  "toError (ThrownError e) = e"
| "toError (ThrownOther s) = Error s"

text \<open>
  What \<^verbatim>\<open>fetch(url)\<close> settles to: it rejects, or it resolves to a response with
  its \<^verbatim>\<open>ok\<close> flag, its \<^verbatim>\<open>status\<close> and the outcome of \<^verbatim>\<open>r.json()\<close>.
  The source casts the decoded payload to the expected type without checking it, so the
  payload is modelled at that type.
\<close>

datatype 'a Response = Response (ok: bool) (status: nat) (json: "thrown + 'a")

datatype 'a fetched = Rejects thrown | Resolves "'a Response"

type_synonym fs = "string \<rightharpoonup> string"

text \<open>
  A rejected \<^verbatim>\<open>fs.writeFile\<close>: the value the promise rejects with, and how far the
  call got. \<^verbatim>\<open>fs.writeFile\<close> opens the file with flag \<^verbatim>\<open>w\<close>, which creates or
  truncates it, and then writes. \<open>written = None\<close>: the file could not be opened, and is
  left as it was. \<open>written = Some k\<close>: the file was opened, and the first \<open>k\<close>
  characters of the data were written before the failure.
\<close>

datatype rejection = Rejection (rejected_with: thrown) (written: "nat option")

definition left_by :: "rejection \<Rightarrow> string \<Rightarrow> string \<Rightarrow> fs \<Rightarrow> fs" where
  "left_by r path data f =
     (case written r of None \<Rightarrow> f | Some k \<Rightarrow> f(path \<mapsto> take k data))"

text \<open>
  The collaborators the source imports: the network (one answer per URL, for the listing
  endpoint and for the detail endpoint), \<^verbatim>\<open>parseISO\<close> of date-fns,
  \<^verbatim>\<open>path.join\<close>, and the file system's decision to reject a write or an append
  (\<open>Some\<close>) given the files as they are, the path and the data. A rejected append
  leaves the file as it was: the sink of the specification (section 4.4) leaves the
  prior content intact when an append fails.
\<close>

record env =
  fetch_topics :: "string \<Rightarrow> TopicListRes fetched"
  fetch_detail :: "string \<Rightarrow> TopicDetail fetched"
  parseISO :: "string \<Rightarrow> Date"
  path_join :: "string \<Rightarrow> string \<Rightarrow> string"
  writeFile_rejects :: "fs \<Rightarrow> string \<Rightarrow> string \<Rightarrow> rejection option"
  appendFile_rejects :: "fs \<Rightarrow> string \<Rightarrow> string \<Rightarrow> thrown option"

text \<open>
  The state a run acts on: the files, and the trace of the calls made so far, in order,
  each with its outcome (\<open>None\<close> when it succeeded, the rejection or the error when it
  failed):
  \<open>Fetch url r\<close> is a call of \<^verbatim>\<open>fetchJson(url)\<close>, \<open>WriteFile path data r\<close>
  and \<open>AppendFile path data r\<close> are calls of \<^verbatim>\<open>fs.writeFile\<close> and
  \<^verbatim>\<open>fs.appendFile\<close>, and \<open>ConsoleError e\<close> is \<^verbatim>\<open>console.error(e)\<close>.
\<close>

datatype event =
    Fetch string "js_error option"
  | WriteFile string string "rejection option"
  | AppendFile string string "thrown option"
  | ConsoleError js_error

record world =
  files :: fs
  trace :: "event list"

definition log_event :: "event \<Rightarrow> world \<Rightarrow> world" where
  "log_event ev w = w\<lparr>trace := trace w @ [ev]\<rparr>"

definition content :: "fs \<Rightarrow> string \<Rightarrow> string" where
  "content f path = (case f path of None \<Rightarrow> [] | Some s \<Rightarrow> s)"

section \<open>Pure functions\<close>

subsection \<open>Numbers in template strings\<close>

text \<open>
  \<^verbatim>\<open>`${n}`\<close> and \<^verbatim>\<open>Array.prototype.join\<close> write an integer in decimal
  (for magnitudes below \<open>10^21\<close>, which covers every page number and thread id).
  \<open>digit\<close> is only applied to numbers below ten.
\<close>

definition digit :: "nat \<Rightarrow> char" where
  "digit d = ''0123456789'' ! d"

fun string_of_nat :: "nat \<Rightarrow> string" where
  "string_of_nat n =
     (if n < 10 then [digit n]
      else string_of_nat (n div 10) @ [digit (n mod 10)])"

declare string_of_nat.simps [simp del]

definition string_of_int :: "int \<Rightarrow> string" where
  "string_of_int i =
     (if i < 0 then CHR ''-'' # string_of_nat (nat (- i)) else string_of_nat (nat i))"

subsection \<open>stripHtml\<close>

text \<open>
  \<^verbatim>\<open>html.replace(/<[^>]+>/g, "")\<close>. \<open>match_tag s\<close> is the attempt to match the
  pattern at the start of \<open>s\<close>: a \<open><\<close>, then as many characters other than \<open>>\<close> as
  there are (at least one), then a \<open>>\<close>; it returns what follows the match. The greedy
  class cannot give a character back to any use, since the next pattern character is the
  one it excludes. The global replace scans from the left, and resumes after each match.
\<close>

definition match_tag :: "string \<Rightarrow> string option" where
  "match_tag s =
     (case s of
        [] \<Rightarrow> None
      | c # cs \<Rightarrow>
          if c = CHR ''<'' \<and> takeWhile (\<lambda>x. x \<noteq> CHR ''>'') cs \<noteq> []
               \<and> dropWhile (\<lambda>x. x \<noteq> CHR ''>'') cs \<noteq> []
          then Some (tl (dropWhile (\<lambda>x. x \<noteq> CHR ''>'') cs))
          else None)"

function stripHtml :: "string \<Rightarrow> string" where
  "stripHtml [] = []"
| "stripHtml (c # cs) =
     (case match_tag (c # cs) of
        Some rest \<Rightarrow> stripHtml rest
      | None \<Rightarrow> c # stripHtml cs)"
  by pat_completeness auto
termination
proof (relation "measure length")
  show "wf (measure length)" by simp
next
  fix c :: char and cs rest :: string
  assume "match_tag (c # cs) = Some rest"
  then have r: "rest = tl (dropWhile (\<lambda>x. x \<noteq> CHR ''>'') cs)"
    by (auto simp: match_tag_def split: if_splits)
  have "length rest \<le> length (dropWhile (\<lambda>x. x \<noteq> CHR ''>'') cs)"
    using r by simp
  also have "\<dots> \<le> length cs"
    by (rule length_dropWhile_le)
  finally show "(rest, c # cs) \<in> measure length" by simp
next
  fix c :: char and cs :: string
  show "(cs, c # cs) \<in> measure length" by simp
qed

subsection \<open>URL builders and the cutoff comparison\<close>

definition buildListUrl :: "string \<Rightarrow> nat \<Rightarrow> string" where
  "buildListUrl tg page =
     ''https://forums.developer.nvidia.com/tag/'' @ tg @ ''.json?solved=no&page=''
       @ string_of_nat page"

definition buildDetailUrl :: "int \<Rightarrow> string" where
  "buildDetailUrl i = ''https://forums.developer.nvidia.com/t/'' @ string_of_int i @ ''.json''"

text \<open>
  \<^verbatim>\<open>d < limit\<close> on two dates compares their time values as numbers; a comparison
  with NaN is false.
\<close>

definition isBefore :: "Date \<Rightarrow> Date \<Rightarrow> bool" where
  "isBefore d limit =
     (case d of
        None \<Rightarrow> False
      | Some a \<Rightarrow> (case limit of None \<Rightarrow> False | Some b \<Rightarrow> a < b))"

subsection \<open>escapeCsv\<close>

text \<open>\<open>replace_dquote\<close> is \<^verbatim>\<open>str.replace(/"/g, '""')\<close>.\<close>

fun replace_dquote :: "string \<Rightarrow> string" where
  "replace_dquote [] = []"
| "replace_dquote (c # cs) =
     (if c = CHR ''\"'' then CHR ''\"'' # CHR ''\"'' # replace_dquote cs
      else c # replace_dquote cs)"

definition escapeCsv :: "string \<Rightarrow> string" where
  "escapeCsv str =
     (if CHR '','' \<in> set str \<or> CHR 0x0A \<in> set str \<or> CHR ''\"'' \<in> set str
      then CHR ''\"'' # replace_dquote str @ [CHR ''\"'']
      else str)"

section \<open>Effects\<close>

subsection \<open>fetchJson\<close>

text \<open>
  \<open>settle\<close> is the promise chain of \<^verbatim>\<open>fetchJson\<close> with the \<^verbatim>\<open>catch\<close>
  of its \<^verbatim>\<open>Effect.tryPromise\<close>: a rejected \<^verbatim>\<open>fetch\<close>, a response that
  is not \<^verbatim>\<open>ok\<close> (the error \<^verbatim>\<open>HTTP <status>\<close>), a rejected
  \<^verbatim>\<open>r.json()\<close>, or the decoded payload. \<open>fetchJson\<close> makes the one call of
  \<^verbatim>\<open>fetch\<close>.
\<close>

definition settle :: "'a fetched \<Rightarrow> js_error + 'a" where
  "settle f =
     (case f of
        Rejects e \<Rightarrow> Inl (toError e)
      | Resolves r \<Rightarrow>
          if \<not> ok r then Inl (Error (''HTTP '' @ string_of_nat (status r)))
          else (case json r of Inl e \<Rightarrow> Inl (toError e) | Inr v \<Rightarrow> Inr v))"

definition fetchJson ::
  "(string \<Rightarrow> 'a fetched) \<Rightarrow> string \<Rightarrow> world \<Rightarrow> (js_error + 'a) \<times> world" where
  "fetchJson net url w =
     (case settle (net url) of
        Inl e \<Rightarrow> (Inl e, log_event (Fetch url (Some e)) w)
      | Inr v \<Rightarrow> (Inr v, log_event (Fetch url None) w))"

subsection \<open>The file system\<close>

text \<open>
  \<^verbatim>\<open>fs.writeFile\<close> replaces the content of the file, \<^verbatim>\<open>fs.appendFile\<close>
  adds to it (and creates the file when there is none). A rejected
  \<^verbatim>\<open>fs.writeFile\<close> leaves what \<open>left_by\<close> says: the file untouched, or created or
  truncated with an initial part of the data.
\<close>

definition fs_writeFile ::
  "env \<Rightarrow> string \<Rightarrow> string \<Rightarrow> world \<Rightarrow> (thrown + unit) \<times> world" where
  "fs_writeFile E path data w =
     (case writeFile_rejects E (files w) path data of
        Some r \<Rightarrow>
          (Inl (rejected_with r), log_event (WriteFile path data (Some r))
             (w\<lparr>files := left_by r path data (files w)\<rparr>))
      | None \<Rightarrow>
          (Inr (), log_event (WriteFile path data None)
             (w\<lparr>files := (files w)(path \<mapsto> data)\<rparr>)))"

definition fs_appendFile ::
  "env \<Rightarrow> string \<Rightarrow> string \<Rightarrow> world \<Rightarrow> (thrown + unit) \<times> world" where
  "fs_appendFile E path data w =
     (case appendFile_rejects E (files w) path data of
        Some e \<Rightarrow> (Inl e, log_event (AppendFile path data (Some e)) w)
      | None \<Rightarrow>
          (Inr (), log_event (AppendFile path data None)
             (w\<lparr>files := (files w)(path \<mapsto> content (files w) path @ data)\<rparr>)))"

definition outputFile :: "env \<Rightarrow> CrawlParams \<Rightarrow> string" where
  "outputFile E params = path_join E (outputDir params) (tag params @ ''_topics.csv'')"

subsection \<open>saveTopic\<close>

text \<open>
  \<open>firstPost\<close> is \<^verbatim>\<open>detail.post_stream?.posts?.[0]\<close>; \<open>nullish a b\<close> is
  \<^verbatim>\<open>a ?? b\<close> on optional values; \<open>firstPostHtml\<close> is
  \<^verbatim>\<open>firstPost?.cooked ?? firstPost?.raw ?? ""\<close>.
\<close>

definition firstPost :: "TopicDetail \<Rightarrow> Post option" where
  "firstPost detail =
     Option.bind (Option.bind (post_stream detail) posts)
       (\<lambda>ps. case ps of [] \<Rightarrow> None | x # _ \<Rightarrow> Some x)"

definition nullish :: "'a option \<Rightarrow> 'a option \<Rightarrow> 'a option" where
  "nullish a b = (case a of Some x \<Rightarrow> Some x | None \<Rightarrow> b)"

definition firstPostHtml :: "TopicDetail \<Rightarrow> string" where
  "firstPostHtml detail =
     (case nullish (nullish (Option.bind (firstPost detail) cooked)
                            (Option.bind (firstPost detail) raw))
                   (Some [])
      of Some html \<Rightarrow> html | None \<Rightarrow> [])"

text \<open>\<open>join_with sep\<close> is \<^verbatim>\<open>Array.prototype.join(sep)\<close> on strings.\<close>

fun join_with :: "string \<Rightarrow> string list \<Rightarrow> string" where
  "join_with sep [] = []"
| "join_with sep [x] = x"
| "join_with sep (x # y # ys) = x @ sep @ join_with sep (y # ys)"

definition csvLine :: "CrawlParams \<Rightarrow> TopicListItem \<Rightarrow> string \<Rightarrow> string" where
  "csvLine params listing cleanBody =
     join_with '',''
       [string_of_int (topic_id listing),
        escapeCsv (title listing),
        escapeCsv cleanBody,
        created_at listing,
        tag params] @ [CHR 0x0A]"

definition saveTopic ::
  "env \<Rightarrow> CrawlParams \<Rightarrow> TopicListItem \<Rightarrow> TopicDetail \<Rightarrow> world
     \<Rightarrow> (js_error + unit) \<times> world" where
  "saveTopic E params listing detail w =
     (let cleanBody = stripHtml (firstPostHtml detail) in
      case fs_appendFile E (outputFile E params) (csvLine params listing cleanBody) w of
        (Inl e, w') \<Rightarrow> (Inl (toError e), w')
      | (Inr u, w') \<Rightarrow> (Inr u, w'))"

subsection \<open>createCsvHeader\<close>

definition header :: string where
  "header = ''id,title,body,created_at,tag'' @ [CHR 0x0A]"

definition createCsvHeader ::
  "env \<Rightarrow> CrawlParams \<Rightarrow> world \<Rightarrow> (js_error + unit) \<times> world" where
  "createCsvHeader E params w =
     (case fs_writeFile E (outputFile E params) header w of
        (Inl e, w') \<Rightarrow> (Inl (toError e), w')
      | (Inr u, w') \<Rightarrow> (Inr u, w'))"

subsection \<open>crawlPage\<close>

text \<open>
  \<open>stale E params t\<close> is the test \<^verbatim>\<open>isBefore(parseISO(t.created_at), params.since)\<close>,
  which the source writes twice: in the callback of \<^verbatim>\<open>Effect.forEach\<close> and in
  \<^verbatim>\<open>topics.some\<close>. \<open>processTopic\<close> is that callback. \<open>forEach\<close> is
  \<^verbatim>\<open>Effect.forEach\<close> in its default, sequential mode: it stops at the first
  failure.
\<close>

definition stale :: "env \<Rightarrow> CrawlParams \<Rightarrow> TopicListItem \<Rightarrow> bool" where
  "stale E params t = isBefore (parseISO E (created_at t)) (since params)"

definition processTopic ::
  "env \<Rightarrow> CrawlParams \<Rightarrow> TopicListItem \<Rightarrow> world \<Rightarrow> (js_error + unit) \<times> world" where
  "processTopic E params t w =
     (if stale E params t then (Inr (), w)
      else
        (case fetchJson (fetch_detail E) (buildDetailUrl (topic_id t)) w of
           (Inl e, w') \<Rightarrow> (Inl e, w')
         | (Inr detail, w') \<Rightarrow> saveTopic E params t detail w'))"

fun forEach ::
  "'a list \<Rightarrow> ('a \<Rightarrow> world \<Rightarrow> (js_error + unit) \<times> world) \<Rightarrow> world
     \<Rightarrow> (js_error + unit) \<times> world" where
  "forEach [] f w = (Inr (), w)"
| "forEach (x # xs) f w =
     (case f x w of
        (Inl e, w') \<Rightarrow> (Inl e, w')
      | (Inr u, w') \<Rightarrow> forEach xs f w')"

text \<open>\<open>falsy u\<close> is \<^verbatim>\<open>!more_topics_url\<close>: null or the empty string.\<close>

definition falsy :: "string option \<Rightarrow> bool" where
  "falsy u = (case u of None \<Rightarrow> True | Some s \<Rightarrow> s = [])"

text \<open>
  The result of a run: the effect succeeded (\<open>Done\<close>), it failed with an error
  (\<open>Failed\<close>), or the run is still going on when the fuel is used up
  (\<open>Unfinished\<close>). The fuel of \<open>crawlPage\<close> is the number of listing pages it may
  still fetch: the recursion of the source goes on for as long as the server reports a next
  page.
\<close>

datatype outcome = Done | Failed js_error | Unfinished

fun crawlPage ::
  "nat \<Rightarrow> env \<Rightarrow> CrawlParams \<Rightarrow> nat \<Rightarrow> world \<Rightarrow> outcome \<times> world" where
  "crawlPage 0 E params page w = (Unfinished, w)"
| "crawlPage (Suc fuel) E params page w =
     (case fetchJson (fetch_topics E) (buildListUrl (tag params) page) w of
        (Inl e, w1) \<Rightarrow> (Failed e, w1)
      | (Inr res, w1) \<Rightarrow>
          (case forEach (topics (topic_list res)) (processTopic E params) w1 of
             (Inl e, w2) \<Rightarrow> (Failed e, w2)
           | (Inr u, w2) \<Rightarrow>
               if falsy (more_topics_url (topic_list res))
                    \<or> list_ex (stale E params) (topics (topic_list res))
               then (Done, w2)
               else crawlPage fuel E params (page + 1) w2))"

subsection \<open>crawlNvidia\<close>

text \<open>
  The header first, then the crawl from page 1. \<^verbatim>\<open>Effect.tapError\<close> passes the error
  of a failed run to \<^verbatim>\<open>console.error\<close> and leaves the failure as it is.
\<close>

definition crawlNvidia ::
  "nat \<Rightarrow> env \<Rightarrow> CrawlParams \<Rightarrow> world \<Rightarrow> outcome \<times> world" where
  "crawlNvidia fuel E p w =
     (case createCsvHeader E p w of
        (Inl e, w1) \<Rightarrow> (Failed e, log_event (ConsoleError e) w1)
      | (Inr u, w1) \<Rightarrow>
          (case crawlPage fuel E p 1 w1 of
             (Failed e, w2) \<Rightarrow> (Failed e, log_event (ConsoleError e) w2)
           | (r, w2) \<Rightarrow> (r, w2)))"

section \<open>Vocabulary of the properties\<close>

subsection \<open>Tags\<close>

text \<open>
  \<open>is_tag t\<close>: the whole of \<open>t\<close> matches \<^verbatim>\<open><[^>]+>\<close>, that is, \<open>t\<close> is a
  \<open><\<close>, one or more characters none of which is \<open>>\<close>, and a \<open>>\<close>.
  \<open>removes_tags s r\<close>: \<open>r\<close> is \<open>s\<close> with some substrings that are tags taken out,
  every other character kept, in its place.
\<close>

definition is_tag :: "string \<Rightarrow> bool" where
  "is_tag t =
     (case t of
        [] \<Rightarrow> False
      | c # cs \<Rightarrow> c = CHR ''<'' \<and> cs \<noteq> [] \<and> last cs = CHR ''>''
                   \<and> butlast cs \<noteq> [] \<and> CHR ''>'' \<notin> set (butlast cs))"

inductive removes_tags :: "string \<Rightarrow> string \<Rightarrow> bool" where
  rt_Nil: "removes_tags [] []"
| rt_keep: "removes_tags s r \<Longrightarrow> removes_tags (c # s) (c # r)"
| rt_drop: "is_tag t \<Longrightarrow> removes_tags s r \<Longrightarrow> removes_tags (t @ s) r"

subsection \<open>Runs\<close>

text \<open>
  \<open>detail_of E t\<close> is what the detail fetch for the listing item \<open>t\<close> yields, and
  \<open>row E p t\<close> the line that is appended for it. \<open>item_events E p t\<close> are the calls a
  listing item leads to when they succeed: none for a stale item, the detail fetch and
  the append for another. \<open>fail_events E p t e\<close> are the calls of an item whose processing
  fails with \<open>e\<close>.

  \<open>replay evs f\<close> are the files after the calls \<open>evs\<close>, started on the files \<open>f\<close>.
  \<open>is_write ev\<close>: the call \<open>ev\<close> wrote to a file: a write or an append that succeeded, or a
  write that was rejected after it had opened the file; no other call changes a file.
  \<open>extends w evs w'\<close>: the calls \<open>evs\<close> lead from the state \<open>w\<close> to the state \<open>w'\<close>.
  \<open>event_error\<close> is the error a call failed with, as \<^verbatim>\<open>Effect.tryPromise\<close> reports
  it.
\<close>

definition detail_of :: "env \<Rightarrow> TopicListItem \<Rightarrow> js_error + TopicDetail" where
  "detail_of E t = settle (fetch_detail E (buildDetailUrl (topic_id t)))"

definition row :: "env \<Rightarrow> CrawlParams \<Rightarrow> TopicListItem \<Rightarrow> string" where
  "row E p t =
     (case detail_of E t of
        Inr d \<Rightarrow> csvLine p t (stripHtml (firstPostHtml d))
      | Inl e \<Rightarrow> [])"

definition item_events :: "env \<Rightarrow> CrawlParams \<Rightarrow> TopicListItem \<Rightarrow> event list" where
  "item_events E p t =
     (if stale E p t then []
      else [Fetch (buildDetailUrl (topic_id t)) None,
            AppendFile (outputFile E p) (row E p t) None])"

fun apply_event :: "event \<Rightarrow> fs \<Rightarrow> fs" where
  "apply_event (WriteFile path data None) f = f(path \<mapsto> data)"
| "apply_event (WriteFile path data (Some r)) f = left_by r path data f"
| "apply_event (AppendFile path data None) f = f(path \<mapsto> content f path @ data)"
| "apply_event ev f = f"

definition replay :: "event list \<Rightarrow> fs \<Rightarrow> fs" where
  "replay evs f = fold apply_event evs f"

fun event_error :: "event \<Rightarrow> js_error option" where
  "event_error (Fetch url r) = r"
| "event_error (WriteFile path data r) = map_option (\<lambda>x. toError (rejected_with x)) r"
| "event_error (AppendFile path data r) = map_option toError r"
| "event_error (ConsoleError e) = None"

fun is_write :: "event \<Rightarrow> bool" where
  "is_write (WriteFile path data None) = True"
| "is_write (WriteFile path data (Some r)) = (written r \<noteq> None)"
| "is_write (AppendFile path data None) = True"
| "is_write ev = False"

definition extends :: "world \<Rightarrow> event list \<Rightarrow> world \<Rightarrow> bool" where
  "extends w evs w' \<longleftrightarrow> trace w' = trace w @ evs \<and> files w' = replay evs (files w)"

definition fail_events ::
  "env \<Rightarrow> CrawlParams \<Rightarrow> TopicListItem \<Rightarrow> js_error \<Rightarrow> event list \<Rightarrow> bool" where
  "fail_events E p t e fe \<longleftrightarrow>
     fe = [Fetch (buildDetailUrl (topic_id t)) (Some e)]
     \<or> (\<exists>th. toError th = e \<and>
           fe = [Fetch (buildDetailUrl (topic_id t)) None,
                 AppendFile (outputFile E p) (row E p t) (Some th)])"

text \<open>
  \<open>clean evs\<close>: no call of \<open>evs\<close> failed. \<open>appends_of E p ds\<close> are the appends of the
  rows of the non-stale items of \<open>ds\<close>, in order. \<open>discovered E p page n\<close> is the listing
  in discovery order: the items of the pages \<open>page\<close>, \<open>page + 1\<close>, ... as the server gives
  them, up to and including the first page after which the controller stops (no next-page
  link, a stale item, or a listing fetch that fails), and at most \<open>n\<close> pages.
  \<open>run_shape E p r ds0 ds evs\<close> describes the calls \<open>evs\<close> of a crawl with outcome \<open>r\<close>
  on the listing \<open>ds0\<close>: the writes among them are the appends for an initial part \<open>ds\<close>
  of the listing; a failed run ends with the one call that failed, with its error; a run
  that has not failed has made no failing call and has gone through the whole listing.
\<close>

definition clean :: "event list \<Rightarrow> bool" where
  "clean evs = list_all (\<lambda>ev. event_error ev = None) evs"

definition appends_of :: "env \<Rightarrow> CrawlParams \<Rightarrow> TopicListItem list \<Rightarrow> event list" where
  "appends_of E p ds =
     map (\<lambda>t. AppendFile (outputFile E p) (row E p t) None) (filter (\<lambda>t. \<not> stale E p t) ds)"

fun discovered :: "env \<Rightarrow> CrawlParams \<Rightarrow> nat \<Rightarrow> nat \<Rightarrow> TopicListItem list" where
  "discovered E p page 0 = []"
| "discovered E p page (Suc n) =
     (case settle (fetch_topics E (buildListUrl (tag p) page)) of
        Inl e \<Rightarrow> []
      | Inr res \<Rightarrow>
          topics (topic_list res) @
          (if falsy (more_topics_url (topic_list res))
              \<or> list_ex (stale E p) (topics (topic_list res))
           then [] else discovered E p (page + 1) n))"

definition run_shape ::
  "env \<Rightarrow> CrawlParams \<Rightarrow> outcome \<Rightarrow> TopicListItem list \<Rightarrow> TopicListItem list
     \<Rightarrow> event list \<Rightarrow> bool" where
  "run_shape E p r ds0 ds evs \<longleftrightarrow>
     prefix ds ds0 \<and> filter is_write evs = appends_of E p ds \<and>
     (case r of
        Failed e \<Rightarrow> (\<exists>pre ev. evs = pre @ [ev] \<and> clean pre \<and> event_error ev = Some e)
      | _ \<Rightarrow> clean evs \<and> ds = ds0)"

text \<open>
  \<open>plain s\<close>: \<open>s\<close> has none of the characters that make \<open>escapeCsv\<close> quote a field.
  \<open>csvLine_spec\<close> follows the words of the specification for the row format: every one of
  the five fields is escaped.
\<close>

definition plain :: "string \<Rightarrow> bool" where
  "plain s \<longleftrightarrow> CHR '','' \<notin> set s \<and> CHR 0x0A \<notin> set s \<and> CHR ''\"'' \<notin> set s"

definition csvLine_spec :: "CrawlParams \<Rightarrow> TopicListItem \<Rightarrow> string \<Rightarrow> string" where
  "csvLine_spec p t body =
     join_with '','' (map escapeCsv
       [string_of_int (topic_id t), title t, body, created_at t, tag p]) @ [CHR 0x0A]"

text \<open>
  \<open>selected_body_spec\<close> follows the words of the specification for the body of a row: the
  rendered body of the first post if present, otherwise its raw body, otherwise the empty
  string; a detail without a first post has the empty body.
\<close>

definition selected_body_spec :: "TopicDetail \<Rightarrow> string" where
  "selected_body_spec detail =
     (case post_stream detail of
        None \<Rightarrow> []
      | Some ps \<Rightarrow>
          (case posts ps of
             None \<Rightarrow> []
           | Some [] \<Rightarrow> []
           | Some (fp # rest) \<Rightarrow>
               (case cooked fp of
                  Some c \<Rightarrow> c
                | None \<Rightarrow> (case raw fp of Some r \<Rightarrow> r | None \<Rightarrow> []))))"

text \<open>
  \<open>succeeds_where E E'\<close>: the environment \<open>E'\<close> differs from \<open>E\<close> at most where a call
  fails in \<open>E\<close>: it parses dates and joins paths as \<open>E\<close> does, every request that \<open>E\<close>
  answers with a payload gets the same payload, and every write that \<open>E\<close> accepts is
  accepted. A run in which every call succeeds, in place of a run that failed in \<open>E\<close>, is
  a run in such an \<open>E'\<close>.
\<close>

definition succeeds_where :: "env \<Rightarrow> env \<Rightarrow> bool" where
  "succeeds_where E E' \<longleftrightarrow>
     parseISO E' = parseISO E \<and> path_join E' = path_join E
     \<and> (\<forall>url v. settle (fetch_topics E url) = Inr v \<longrightarrow> settle (fetch_topics E' url) = Inr v)
     \<and> (\<forall>url v. settle (fetch_detail E url) = Inr v \<longrightarrow> settle (fetch_detail E' url) = Inr v)
     \<and> (\<forall>f path data. writeFile_rejects E f path data = None
            \<longrightarrow> writeFile_rejects E' f path data = None)
     \<and> (\<forall>f path data. appendFile_rejects E f path data = None
            \<longrightarrow> appendFile_rejects E' f path data = None)"

subsection \<open>Example runs\<close>

text \<open>
  The end-to-end scenario of the specification: the tag \<^verbatim>\<open>cuda\<close>, the cutoff
  2024-01-01, an item of 2024-02-01, an item of 2023-12-01 and an item whose date does not
  parse. \<open>detail0\<close> has a first post with a rendered and a raw body, \<open>detail_raw\<close> a first
  post with a raw body only, \<open>detail_bare\<close> a first post with neither, and
  \<open>detail_no_posts\<close> has no post. \<open>env0 listing\<close> answers the listing requests by \<open>listing\<close> and every detail request by
  \<open>detail0\<close>, and accepts every write.
\<close>

definition params0 :: CrawlParams where
  "params0 = \<lparr>tag = ''cuda'', since = Some 1704067200000, outputDir = ''/out''\<rparr>"

definition topic_new :: TopicListItem where
  "topic_new = \<lparr>topic_id = 101, title = ''Hello, World'', slug = ''hello-world'',
      created_at = ''2024-02-01''\<rparr>"

definition topic_old :: TopicListItem where
  "topic_old = \<lparr>topic_id = 102, title = ''Old'', slug = ''old'', created_at = ''2023-12-01''\<rparr>"

definition topic_undated :: TopicListItem where
  "topic_undated = \<lparr>topic_id = 103, title = ''Odd'', slug = ''odd'', created_at = ''soon''\<rparr>"

definition detail0 :: TopicDetail where
  "detail0 = \<lparr>post_stream = Some \<lparr>posts = Some
      [\<lparr>raw = Some ''She said hi'', cooked = Some ''<p>She said \"hi\"</p>'',
        post_created_at = ''2024-02-01''\<rparr>]\<rparr>\<rparr>"

definition detail_raw :: TopicDetail where
  "detail_raw = \<lparr>post_stream = Some \<lparr>posts = Some
      [\<lparr>raw = Some ''see <b>this</b>, please'', cooked = None,
        post_created_at = ''2024-02-01''\<rparr>,
       \<lparr>raw = Some ''second'', cooked = Some ''<p>second</p>'',
        post_created_at = ''2024-02-02''\<rparr>]\<rparr>\<rparr>"

definition detail_bare :: TopicDetail where
  "detail_bare = \<lparr>post_stream = Some \<lparr>posts = Some
      [\<lparr>raw = None, cooked = None, post_created_at = ''2024-02-01''\<rparr>]\<rparr>\<rparr>"

definition detail_no_posts :: TopicDetail where
  "detail_no_posts = \<lparr>post_stream = Some \<lparr>posts = Some []\<rparr>\<rparr>"

definition parse0 :: "string \<Rightarrow> Date" where
  "parse0 s =
     (if s = ''2024-02-01'' then Some 1706745600000
      else if s = ''2023-12-01'' then Some 1701388800000
      else None)"

definition page_of :: "TopicListItem list \<Rightarrow> string option \<Rightarrow> TopicListRes fetched" where
  "page_of ts nxt =
     Resolves (Response True 200 (Inr \<lparr>topic_list = \<lparr>topics = ts, more_topics_url = nxt\<rparr>\<rparr>))"

definition env0 :: "(string \<Rightarrow> TopicListRes fetched) \<Rightarrow> env" where
  "env0 listing =
     \<lparr>fetch_topics = listing,
      fetch_detail = (\<lambda>url. Resolves (Response True 200 (Inr detail0))),
      parseISO = parse0,
      path_join = (\<lambda>dir file. dir @ ''/'' @ file),
      writeFile_rejects = (\<lambda>f path data. None),
      appendFile_rejects = (\<lambda>f path data. None)\<rparr>"

definition world0 :: world where
  "world0 = \<lparr>files = Map.empty, trace = []\<rparr>"

text \<open>
  Listings: \<open>two_pages\<close> has a first page with a next-page link and a last page;
  \<open>one_page ts\<close> answers every listing request with the items \<open>ts\<close> and no next-page link;
  \<open>same_twice\<close> lists the same item on both of its pages; \<open>undated_first\<close> has a first
  page with the item whose date does not parse and a next-page link, and a last page;
  \<open>always_500\<close> answers every
  listing request with status 500. \<open>read_only E\<close> is \<open>E\<close> with every
  \<^verbatim>\<open>fs.writeFile\<close> rejected when it opens the file, \<open>disk_full E\<close> is \<open>E\<close> with every
  \<^verbatim>\<open>fs.writeFile\<close> rejected after it has opened the file and written three characters,
  and \<open>world_old\<close> has the output file already, with
  other content. \<open>world1\<close> is the state after the first page of \<open>two_pages\<close>.
\<close>

definition two_pages :: "string \<Rightarrow> TopicListRes fetched" where
  "two_pages url =
     (if url = buildListUrl ''cuda'' 1 then page_of [topic_new] (Some ''/tag/cuda?page=2'')
      else page_of [topic_old, topic_undated] None)"

definition world1 :: world where
  "world1 =
     snd (forEach [topic_new] (processTopic (env0 two_pages) params0)
       (snd (fetchJson (fetch_topics (env0 two_pages)) (buildListUrl ''cuda'' 1) world0)))"

definition one_page :: "TopicListItem list \<Rightarrow> string \<Rightarrow> TopicListRes fetched" where
  "one_page ts url = page_of ts None"

definition same_twice :: "string \<Rightarrow> TopicListRes fetched" where
  "same_twice url =
     (if url = buildListUrl ''cuda'' 1 then page_of [topic_new] (Some ''/tag/cuda?page=2'')
      else page_of [topic_new] None)"

definition undated_first :: "string \<Rightarrow> TopicListRes fetched" where
  "undated_first url =
     (if url = buildListUrl ''cuda'' 1 then page_of [topic_undated] (Some ''/tag/cuda?page=2'')
      else page_of [topic_old] None)"

definition always_500 :: "string \<Rightarrow> TopicListRes fetched" where
  "always_500 url = Resolves (Response False 500 (Inl (ThrownOther ''Unexpected token'')))"

definition read_only :: "env \<Rightarrow> env" where
  "read_only E =
     E\<lparr>writeFile_rejects :=
         (\<lambda>f path data. Some (Rejection (ThrownError (Error ''EACCES'')) None))\<rparr>"

definition disk_full :: "env \<Rightarrow> env" where
  "disk_full E =
     E\<lparr>writeFile_rejects :=
         (\<lambda>f path data. Some (Rejection (ThrownError (Error ''ENOSPC'')) (Some 3)))\<rparr>"

definition world_old :: world where
  "world_old = \<lparr>files = [''/out/cuda_topics.csv'' \<mapsto> ''old''], trace = []\<rparr>"

section \<open>Lemmas\<close>

subsection \<open>escapeCsv and stripHtml\<close>

lemma dq:
  "replace_dquote s =
     concat (map (\<lambda>c. if c = CHR ''\"'' then [CHR ''\"'', CHR ''\"''] else [c]) s)"
  by (induction s) auto

lemma match_tag_split:
  assumes "match_tag s = Some r"
  shows "\<exists>t. is_tag t \<and> s = t @ r"
proof -
  let ?P = "\<lambda>x. x \<noteq> CHR ''>''"
  from assms obtain cs where s: "s = CHR ''<'' # cs"
    and b: "takeWhile ?P cs \<noteq> []" and d: "dropWhile ?P cs \<noteq> []"
    and r: "r = tl (dropWhile ?P cs)"
    by (auto simp: match_tag_def split: list.splits if_splits)
  from d have "\<not> ?P (hd (dropWhile ?P cs))" by (rule hd_dropWhile)
  then have hd: "hd (dropWhile ?P cs) = CHR ''>''" by simp
  with d r have dr: "dropWhile ?P cs = CHR ''>'' # r"
    by (cases "dropWhile ?P cs") auto
  have cs: "cs = takeWhile ?P cs @ CHR ''>'' # r"
    using takeWhile_dropWhile_id[of ?P cs] dr by simp
  let ?t = "CHR ''<'' # takeWhile ?P cs @ [CHR ''>'']"
  have "CHR ''>'' \<notin> set (takeWhile ?P cs)"
    using set_takeWhileD by fastforce
  then have "is_tag ?t" using b by (simp add: is_tag_def)
  moreover have "s = ?t @ r" using s cs by simp
  ultimately show ?thesis by blast
qed

lemma removes_tags_stripHtml: "removes_tags s (stripHtml s)"
proof (induction s rule: stripHtml.induct)
  case 1
  show ?case by (simp add: rt_Nil)
next
  case (2 c cs)
  show ?case
  proof (cases "match_tag (c # cs)")
    case None
    with 2 show ?thesis by (simp add: rt_keep)
  next
    case (Some rest)
    then obtain t where t: "is_tag t" "c # cs = t @ rest"
      using match_tag_split by blast
    from 2(2)[OF Some] have "removes_tags rest (stripHtml rest)" .
    with t have "removes_tags (t @ rest) (stripHtml rest)" by (blast intro: rt_drop)
    then have "removes_tags (c # cs) (stripHtml rest)" using t(2) by simp
    moreover have "stripHtml (c # cs) = stripHtml rest" using Some by simp
    ultimately show ?thesis by simp
  qed
qed

lemma match_tag_set: "match_tag s = Some r \<Longrightarrow> set r \<subseteq> set s"
proof -
  assume "match_tag s = Some r"
  then obtain t where "s = t @ r" using match_tag_split by blast
  then show ?thesis by auto
qed

lemma set_stripHtml: "set (stripHtml s) \<subseteq> set s"
proof (induction s rule: stripHtml.induct)
  case 1
  show ?case by simp
next
  case (2 c cs)
  show ?case
  proof (cases "match_tag (c # cs)")
    case None
    with 2 show ?thesis by auto
  next
    case (Some rest)
    with 2(2)[OF Some] match_tag_set[OF Some] show ?thesis by auto
  qed
qed

lemma tag_shape:
  assumes "is_tag t" "sublist t r"
  shows "\<exists>u d w. r = u @ CHR ''<'' # d # w \<and> d \<noteq> CHR ''>'' \<and> CHR ''>'' \<in> set w"
proof -
  from assms(1) obtain cs where t: "t = CHR ''<'' # cs" and ne: "cs \<noteq> []"
    and l: "last cs = CHR ''>''" and b: "butlast cs \<noteq> []" and n: "CHR ''>'' \<notin> set (butlast cs)"
    by (auto simp: is_tag_def split: list.splits)
  from b obtain d ds where bd: "butlast cs = d # ds" by (cases "butlast cs") auto
  have cs: "cs = d # ds @ [CHR ''>'']"
    using append_butlast_last_id[OF ne] bd l by simp
  from n bd have "d \<noteq> CHR ''>''" by auto
  from assms(2) obtain u v where "r = u @ t @ v" by (auto simp: sublist_def)
  then have "r = u @ CHR ''<'' # d # (ds @ CHR ''>'' # v)" using t cs by simp
  moreover have "CHR ''>'' \<in> set (ds @ CHR ''>'' # v)" by simp
  ultimately show ?thesis using \<open>d \<noteq> CHR ''>''\<close> by blast
qed

lemma stripHtml_no_shape:
  "stripHtml s = u @ CHR ''<'' # d # w \<Longrightarrow> d \<noteq> CHR ''>'' \<Longrightarrow> CHR ''>'' \<in> set w \<Longrightarrow> False"
proof (induction s arbitrary: u rule: stripHtml.induct)
  case 1
  then show ?case by simp
next
  case (2 c cs)
  show ?case
  proof (cases "match_tag (c # cs)")
    case (Some rest)
    with 2(3) have "stripHtml rest = u @ CHR ''<'' # d # w" by simp
    from 2(2)[OF Some this 2(4) 2(5)] show ?thesis .
  next
    case None
    with 2(3) have eq: "c # stripHtml cs = u @ CHR ''<'' # d # w" by simp
    show ?thesis
    proof (cases u)
      case (Cons a u')
      with eq have "stripHtml cs = u' @ CHR ''<'' # d # w" by simp
      from 2(1)[OF None this 2(4) 2(5)] show ?thesis .
    next
      case Nil
      with eq have c: "c = CHR ''<''" and sc: "stripHtml cs = d # w" by simp_all
      have "CHR ''>'' \<in> set (stripHtml cs)" using sc 2(5) by simp
      then have in_cs: "CHR ''>'' \<in> set cs" using set_stripHtml by blast
      then have "dropWhile (\<lambda>x. x \<noteq> CHR ''>'') cs \<noteq> []" by (simp add: dropWhile_eq_Nil_conv)
      with None c have "takeWhile (\<lambda>x. x \<noteq> CHR ''>'') cs = []"
        by (simp add: match_tag_def split: if_splits)
      with in_cs obtain cs' where cs': "cs = CHR ''>'' # cs'"
        by (cases cs) (auto split: if_splits)
      have "match_tag (CHR ''>'' # cs') = None" by (simp add: match_tag_def)
      then have "stripHtml cs = CHR ''>'' # stripHtml cs'" using cs' by simp
      with sc 2(4) show ?thesis by simp
    qed
  qed
qed

lemma stripHtml_unchanged:
  "CHR ''<'' \<notin> set s \<or> CHR ''>'' \<notin> set s \<Longrightarrow> stripHtml s = s"
proof (induction s)
  case Nil
  show ?case by simp
next
  case (Cons c cs)
  have "match_tag (c # cs) = None"
  proof (cases "c = CHR ''<''")
    case False
    then show ?thesis by (simp add: match_tag_def)
  next
    case True
    with Cons.prems have "CHR ''>'' \<notin> set cs" by auto
    then show ?thesis by (auto simp: match_tag_def dropWhile_eq_Nil_conv)
  qed
  moreover from Cons.prems have "CHR ''<'' \<notin> set cs \<or> CHR ''>'' \<notin> set cs" by auto
  ultimately show ?case using Cons.IH by simp
qed

subsection \<open>The calls of a listing item and of a page\<close>

lemma extends_refl: "extends w [] w"
  by (simp add: extends_def replay_def)

lemma extends_trans: "extends w a w1 \<Longrightarrow> extends w1 b w2 \<Longrightarrow> extends w (a @ b) w2"
  by (simp add: extends_def replay_def)

lemma fetchJson_extends:
  "fetchJson net url w = (r, w') \<Longrightarrow>
     extends w [Fetch url (case r of Inl e \<Rightarrow> Some e | Inr v \<Rightarrow> None)] w' \<and> r = settle (net url)"
  by (auto simp: fetchJson_def extends_def replay_def log_event_def split: sum.splits)

lemma processTopic_stale: "stale E p t \<Longrightarrow> processTopic E p t w = (Inr (), w)"
  by (simp add: processTopic_def)

lemma processTopic_fetch_fails:
  "\<not> stale E p t \<Longrightarrow> detail_of E t = Inl e \<Longrightarrow>
     processTopic E p t w = (Inl e, log_event (Fetch (buildDetailUrl (topic_id t)) (Some e)) w)"
  by (simp add: processTopic_def fetchJson_def detail_of_def)

lemma processTopic_append_fails:
  "\<not> stale E p t \<Longrightarrow> detail_of E t = Inr d \<Longrightarrow>
   appendFile_rejects E (files w) (outputFile E p) (row E p t) = Some th \<Longrightarrow>
     processTopic E p t w =
       (Inl (toError th),
        log_event (AppendFile (outputFile E p) (row E p t) (Some th))
          (log_event (Fetch (buildDetailUrl (topic_id t)) None) w))"
  by (simp add: processTopic_def fetchJson_def detail_of_def saveTopic_def fs_appendFile_def
      row_def log_event_def Let_def)

lemma processTopic_saves:
  "\<not> stale E p t \<Longrightarrow> detail_of E t = Inr d \<Longrightarrow>
   appendFile_rejects E (files w) (outputFile E p) (row E p t) = None \<Longrightarrow>
     processTopic E p t w =
       (Inr (),
        w\<lparr>files := (files w)(outputFile E p \<mapsto> content (files w) (outputFile E p) @ row E p t),
          trace := trace w @ item_events E p t\<rparr>)"
  by (simp add: processTopic_def fetchJson_def detail_of_def saveTopic_def fs_appendFile_def
      row_def log_event_def item_events_def Let_def)

lemma processTopic_ok_extends:
  assumes "processTopic E p t w = (Inr u, w')"
  shows "extends w (item_events E p t) w'"
proof (cases "stale E p t")
  case True
  then show ?thesis using assms by (simp add: processTopic_stale item_events_def extends_refl)
next
  case False
  show ?thesis
  proof (cases "detail_of E t")
    case (Inl e)
    with False assms show ?thesis by (simp add: processTopic_fetch_fails)
  next
    case (Inr d)
    show ?thesis
    proof (cases "appendFile_rejects E (files w) (outputFile E p) (row E p t)")
      case (Some th)
      with False Inr assms show ?thesis by (simp add: processTopic_append_fails)
    next
      case None
      from processTopic_saves[OF False Inr None] assms
      show ?thesis using False
        by (auto simp: extends_def replay_def item_events_def)
    qed
  qed
qed

lemma processTopic_fail_extends:
  assumes "processTopic E p t w = (Inl e, w')"
  shows "\<not> stale E p t \<and> (\<exists>fe. fail_events E p t e fe \<and> extends w fe w')"
proof (cases "stale E p t")
  case True
  then show ?thesis using assms by (simp add: processTopic_stale)
next
  case False
  show ?thesis
  proof (cases "detail_of E t")
    case (Inl e')
    with False assms have "e' = e" "w' = log_event (Fetch (buildDetailUrl (topic_id t)) (Some e)) w"
      by (auto simp add: processTopic_fetch_fails)
    then show ?thesis using False
      by (auto simp: fail_events_def extends_def replay_def log_event_def)
  next
    case (Inr d)
    show ?thesis
    proof (cases "appendFile_rejects E (files w) (outputFile E p) (row E p t)")
      case (Some th)
      from processTopic_append_fails[OF False Inr Some] assms
      have "toError th = e" "w' = log_event (AppendFile (outputFile E p) (row E p t) (Some th))
          (log_event (Fetch (buildDetailUrl (topic_id t)) None) w)" by auto
      then show ?thesis using False
        by (auto simp: fail_events_def extends_def replay_def log_event_def)
    next
      case None
      from processTopic_saves[OF False Inr None] assms show ?thesis by simp
    qed
  qed
qed

lemma forEach_ok_extends:
  "forEach ts (processTopic E p) w = (Inr u, w') \<Longrightarrow>
     extends w (concat (map (item_events E p) ts)) w'"
proof (induction ts arbitrary: w)
  case Nil
  then show ?case by (simp add: extends_refl)
next
  case (Cons t ts)
  obtain r w1 where step: "processTopic E p t w = (r, w1)" by (cases "processTopic E p t w")
  show ?case
  proof (cases r)
    case (Inl e)
    with step Cons.prems show ?thesis by simp
  next
    case (Inr u1)
    with step Cons.prems have rest: "forEach ts (processTopic E p) w1 = (Inr u, w')" by simp
    from step Inr have "extends w (item_events E p t) w1" by (simp add: processTopic_ok_extends)
    with Cons.IH[OF rest] show ?thesis by (simp add: extends_trans)
  qed
qed

lemma forEach_fail_extends:
  "forEach ts (processTopic E p) w = (Inl e, w') \<Longrightarrow>
     \<exists>xs t ys fe. ts = xs @ t # ys \<and> \<not> stale E p t \<and> fail_events E p t e fe
        \<and> extends w (concat (map (item_events E p) xs) @ fe) w'"
proof (induction ts arbitrary: w)
  case Nil
  then show ?case by simp
next
  case (Cons t ts)
  obtain r w1 where step: "processTopic E p t w = (r, w1)" by (cases "processTopic E p t w")
  show ?case
  proof (cases r)
    case (Inl e1)
    with step Cons.prems have "e1 = e" "w1 = w'" by simp_all
    with step Inl processTopic_fail_extends[of E p t w e w']
    obtain fe where "\<not> stale E p t" "fail_events E p t e fe" "extends w fe w'" by auto
    then have "t # ts = [] @ t # ts \<and> \<not> stale E p t \<and> fail_events E p t e fe
        \<and> extends w (concat (map (item_events E p) []) @ fe) w'" by simp
    then show ?thesis by blast
  next
    case (Inr u1)
    with step Cons.prems have rest: "forEach ts (processTopic E p) w1 = (Inl e, w')" by simp
    from step Inr have e1: "extends w (item_events E p t) w1" by (simp add: processTopic_ok_extends)
    from Cons.IH[OF rest] obtain xs t' ys fe where
      h: "ts = xs @ t' # ys" "\<not> stale E p t'" "fail_events E p t' e fe"
         "extends w1 (concat (map (item_events E p) xs) @ fe) w'" by blast
    from extends_trans[OF e1 h(4)]
    have "extends w (concat (map (item_events E p) (t # xs)) @ fe) w'" by simp
    moreover have "t # ts = (t # xs) @ t' # ys" using h(1) by simp
    ultimately show ?thesis using h(2,3) by blast
  qed
qed

lemma forEach_append:
  "forEach (xs @ ys) f w =
     (case forEach xs f w of (Inl e, w') \<Rightarrow> (Inl e, w') | (Inr u, w') \<Rightarrow> forEach ys f w')"
  by (induction xs arbitrary: w) (auto split: prod.splits sum.splits)

lemma writes_item_events: "filter is_write (concat (map (item_events E p) xs)) = appends_of E p xs"
  by (induction xs) (auto simp: item_events_def appends_of_def)

lemma clean_item_events: "clean (concat (map (item_events E p) xs))"
  by (induction xs) (auto simp: item_events_def clean_def)

lemma clean_Nil: "clean []"
  by (simp add: clean_def)

lemma clean_Cons: "clean (ev # evs) \<longleftrightarrow> event_error ev = None \<and> clean evs"
  by (simp add: clean_def)

lemma clean_append: "clean (a @ b) \<longleftrightarrow> clean a \<and> clean b"
  by (simp add: clean_def)

lemma appends_of_append: "appends_of E p (xs @ ys) = appends_of E p xs @ appends_of E p ys"
  by (simp add: appends_of_def)

lemma fail_events_shape:
  assumes "fail_events E p t e fe"
  shows "filter is_write fe = [] \<and> (\<exists>pre ev. fe = pre @ [ev] \<and> clean pre \<and> event_error ev = Some e)"
proof -
  from assms consider
    (a) "fe = [Fetch (buildDetailUrl (topic_id t)) (Some e)]"
  | (b) th where "toError th = e"
      "fe = [Fetch (buildDetailUrl (topic_id t)) None, AppendFile (outputFile E p) (row E p t) (Some th)]"
    by (auto simp: fail_events_def)
  then show ?thesis
  proof cases
    case a
    then have "fe = [] @ [Fetch (buildDetailUrl (topic_id t)) (Some e)]" by simp
    moreover have "clean []" by (simp add: clean_def)
    ultimately show ?thesis using a by fastforce
  next
    case b
    then have "fe = [Fetch (buildDetailUrl (topic_id t)) None]
        @ [AppendFile (outputFile E p) (row E p t) (Some th)]" by simp
    moreover have "clean [Fetch (buildDetailUrl (topic_id t)) None]" by (simp add: clean_def)
    moreover have "event_error (AppendFile (outputFile E p) (row E p t) (Some th)) = Some e"
      using b by simp
    moreover have "filter is_write fe = []" using b by simp
    ultimately show ?thesis by blast
  qed
qed

lemma crawlPage_run:
  "crawlPage n E p page w = (r, w') \<Longrightarrow>
     \<exists>ds evs. extends w evs w' \<and> run_shape E p r (discovered E p page n) ds evs"
proof (induction n arbitrary: page w)
  case 0
  then have "r = Unfinished" "w' = w" by auto
  then have "extends w [] w' \<and> run_shape E p r (discovered E p page 0) [] []"
    by (simp add: extends_refl run_shape_def clean_def appends_of_def)
  then show ?case by blast
next
  case (Suc n)
  let ?url = "buildListUrl (tag p) page"
  obtain r1 w1 where f: "fetchJson (fetch_topics E) ?url w = (r1, w1)"
    by (cases "fetchJson (fetch_topics E) ?url w")
  from fetchJson_extends[OF f]
  have e1: "extends w [Fetch ?url (case r1 of Inl e \<Rightarrow> Some e | Inr v \<Rightarrow> None)] w1"
    and s1: "settle (fetch_topics E ?url) = r1" by blast+
  show ?case
  proof (cases r1)
    case (Inl e)
    with f Suc.prems have "r = Failed e" "w' = w1" by auto
    moreover have "[Fetch ?url (Some e)] = [] @ [Fetch ?url (Some e)]" by simp
    moreover have "clean []" by (simp add: clean_def)
    ultimately have "extends w [Fetch ?url (Some e)] w'
        \<and> run_shape E p r (discovered E p page (Suc n)) [] [Fetch ?url (Some e)]"
      using e1 Inl by (simp add: run_shape_def appends_of_def)
    then show ?thesis by blast
  next
    case (Inr res)
    let ?ts = "topics (topic_list res)"
    let ?stop = "falsy (more_topics_url (topic_list res)) \<or> list_ex (stale E p) ?ts"
    have disc: "discovered E p page (Suc n) = ?ts @ (if ?stop then [] else discovered E p (page + 1) n)"
      using s1 Inr by simp
    have e1': "extends w [Fetch ?url None] w1" using e1 Inr by simp
    obtain r2 w2 where g: "forEach ?ts (processTopic E p) w1 = (r2, w2)"
      by (cases "forEach ?ts (processTopic E p) w1")
    show ?thesis
    proof (cases r2)
      case (Inl e)
      with f Inr g Suc.prems have rw: "r = Failed e" "w' = w2" by auto
      from forEach_fail_extends[of ?ts E p w1 e w2] g Inl obtain xs t ys fe where
        h: "?ts = xs @ t # ys" "fail_events E p t e fe"
           "extends w1 (concat (map (item_events E p) xs) @ fe) w2" by auto
      from fail_events_shape[OF h(2)] obtain pre ev where
        fs: "filter is_write fe = []" "fe = pre @ [ev]" "clean pre" "event_error ev = Some e"
        by blast
      let ?evs = "[Fetch ?url None] @ concat (map (item_events E p) xs) @ fe"
      have "extends w ?evs w'" using extends_trans[OF e1' h(3)] rw by simp
      moreover have "prefix xs (discovered E p page (Suc n))"
        using disc h(1) by (simp add: prefix_def)
      moreover have "filter is_write ?evs = appends_of E p xs"
        using fs(1) by (simp add: writes_item_events)
      moreover have "?evs = ([Fetch ?url None] @ concat (map (item_events E p) xs) @ pre) @ [ev]"
        using fs(2) by simp
      moreover have "clean ([Fetch ?url None] @ concat (map (item_events E p) xs) @ pre)"
        using fs(3) by (simp add: clean_append clean_item_events clean_Cons clean_Nil)
      ultimately have "extends w ?evs w' \<and> run_shape E p r (discovered E p page (Suc n)) xs ?evs"
        unfolding run_shape_def using rw(1) fs(4) by (simp only: outcome.case) blast
      then show ?thesis by blast
    next
      case (Inr u)
      from forEach_ok_extends[of ?ts E p w1 u w2] g Inr
      have e2: "extends w1 (concat (map (item_events E p) ?ts)) w2" by simp
      have e12: "extends w ([Fetch ?url None] @ concat (map (item_events E p) ?ts)) w2"
        by (rule extends_trans[OF e1' e2])
      have c12: "clean ([Fetch ?url None] @ concat (map (item_events E p) ?ts))"
        by (simp add: clean_append clean_item_events clean_Cons clean_Nil)
      have w12: "filter is_write ([Fetch ?url None] @ concat (map (item_events E p) ?ts))
          = appends_of E p ?ts"
        by (simp add: writes_item_events)
      show ?thesis
      proof (cases ?stop)
        case True
        with f \<open>r1 = Inr res\<close> g Inr Suc.prems have rw: "r = Done" "w' = w2" by auto
        have "discovered E p page (Suc n) = ?ts" using disc True by simp
        then have "extends w ([Fetch ?url None] @ concat (map (item_events E p) ?ts)) w'
          \<and> run_shape E p r (discovered E p page (Suc n)) ?ts
               ([Fetch ?url None] @ concat (map (item_events E p) ?ts))"
          using e12 c12 w12 rw by (simp add: run_shape_def)
        then show ?thesis by blast
      next
        case False
        with f \<open>r1 = Inr res\<close> g Inr Suc.prems
        have rest: "crawlPage n E p (page + 1) w2 = (r, w')" by auto
        from Suc.IH[OF rest] obtain ds evs where
          ih: "extends w2 evs w'" "run_shape E p r (discovered E p (page + 1) n) ds evs" by blast
        have d: "discovered E p page (Suc n) = ?ts @ discovered E p (page + 1) n"
          using disc False by simp
        let ?evs = "([Fetch ?url None] @ concat (map (item_events E p) ?ts)) @ evs"
        have "extends w ?evs w'" by (rule extends_trans[OF e12 ih(1)])
        moreover have "run_shape E p r (discovered E p page (Suc n)) (?ts @ ds) ?evs"
        proof -
          have p: "prefix (?ts @ ds) (discovered E p page (Suc n))"
            using ih(2) d by (simp add: run_shape_def)
          have wr: "filter is_write ?evs = appends_of E p (?ts @ ds)"
            using ih(2) w12 by (simp add: run_shape_def appends_of_append)
          show ?thesis
          proof (cases r)
            case (Failed e)
            with ih(2) obtain pre ev where
              "evs = pre @ [ev]" "clean pre" "event_error ev = Some e"
              by (auto simp: run_shape_def)
            then have "?evs = (([Fetch ?url None] @ concat (map (item_events E p) ?ts)) @ pre) @ [ev]"
              "clean (([Fetch ?url None] @ concat (map (item_events E p) ?ts)) @ pre)"
              "event_error ev = Some e"
              using c12 by (simp_all add: clean_append clean_Cons)
            then have "\<exists>pre ev. ?evs = pre @ [ev] \<and> clean pre \<and> event_error ev = Some e"
              by blast
            with p wr Failed show ?thesis unfolding run_shape_def by (simp only: outcome.case)
          next
            case Done
            with ih(2) have "clean evs" "ds = discovered E p (page + 1) n"
              by (simp_all add: run_shape_def)
            with p wr Done d c12 show ?thesis by (simp add: run_shape_def clean_append clean_Cons)
          next
            case Unfinished
            with ih(2) have "clean evs" "ds = discovered E p (page + 1) n"
              by (simp_all add: run_shape_def)
            with p wr Unfinished d c12 show ?thesis by (simp add: run_shape_def clean_append clean_Cons)
          qed
        qed
        ultimately show ?thesis by blast
      qed
    qed
  qed
qed

subsection \<open>The row format\<close>

lemma digit_plain:
  assumes "k < 10"
  shows "digit k \<noteq> CHR '',''" "digit k \<noteq> CHR 0x0A" "digit k \<noteq> CHR ''\"''"
proof -
  have "digit k \<in> set ''0123456789''"
    unfolding digit_def using assms by (intro nth_mem) simp
  then show "digit k \<noteq> CHR '',''" "digit k \<noteq> CHR 0x0A" "digit k \<noteq> CHR ''\"''"
    by auto
qed

lemma plain_string_of_nat: "plain (string_of_nat n)"
proof (induction n rule: string_of_nat.induct)
  case (1 n)
  show ?case
  proof (cases "n < 10")
    case True
    then show ?thesis
      using digit_plain[of n] by (subst string_of_nat.simps) (simp add: plain_def)
  next
    case False
    have "n mod 10 < 10" by simp
    from digit_plain[OF this] 1[OF False] False show ?thesis
      by (subst string_of_nat.simps) (simp add: plain_def)
  qed
qed

lemma plain_string_of_int: "plain (string_of_int i)"
  using plain_string_of_nat[of "nat i"] plain_string_of_nat[of "nat (- i)"]
  by (simp add: string_of_int_def plain_def)

lemma escapeCsv_plain: "plain s \<Longrightarrow> escapeCsv s = s"
  by (simp add: plain_def escapeCsv_def)

lemma saveTopic_ok:
  assumes "saveTopic E p t d w = (Inr u, w')"
  shows "content (files w') (outputFile E p) =
           content (files w) (outputFile E p) @ csvLine p t (stripHtml (firstPostHtml d))"
  using assms
  by (auto simp: saveTopic_def Let_def fs_appendFile_def log_event_def content_def
      split: option.splits prod.splits sum.splits)

subsection \<open>Evaluation of the example runs\<close>

lemmas fixture_defs = params0_def topic_new_def topic_old_def topic_undated_def detail0_def
  detail_raw_def detail_bare_def detail_no_posts_def
  parse0_def page_of_def env0_def world0_def

lemmas run_defs = crawlNvidia_def createCsvHeader_def fs_writeFile_def fetchJson_def settle_def
  processTopic_def stale_def isBefore_def saveTopic_def fs_appendFile_def csvLine_def
  escapeCsv_def match_tag_def firstPostHtml_def firstPost_def nullish_def outputFile_def
  log_event_def content_def string_of_int_def string_of_nat.simps digit_def buildListUrl_def
  buildDetailUrl_def header_def falsy_def left_by_def Let_def

lemmas fixture2_defs = fixture_defs two_pages_def world1_def

lemmas fixture3_defs = fixture2_defs one_page_def

lemmas fixture4_defs = fixture3_defs undated_first_def always_500_def read_only_def disk_full_def world_old_def

subsection \<open>The decision after a page\<close>

lemma forEach_trace_grows:
  "\<exists>evs. trace (snd (forEach ts (processTopic E p) w)) = trace w @ evs"
proof -
  obtain r w' where g: "forEach ts (processTopic E p) w = (r, w')"
    by (cases "forEach ts (processTopic E p) w")
  show ?thesis
  proof (cases r)
    case (Inl e)
    with g forEach_fail_extends[of ts E p w e w'] show ?thesis
      by (auto simp: extends_def)
  next
    case (Inr u)
    with g forEach_ok_extends[of ts E p w u w'] show ?thesis
      by (auto simp: extends_def)
  qed
qed

lemma crawlPage_trace_grows:
  "\<exists>evs. trace (snd (crawlPage n E p page w)) = trace w @ evs"
proof -
  obtain r w' where g: "crawlPage n E p page w = (r, w')"
    by (cases "crawlPage n E p page w")
  from crawlPage_run[OF g] show ?thesis using g by (auto simp: extends_def)
qed

lemma crawlPage_first_fetch:
  "\<exists>r tr. trace (snd (crawlPage (Suc n) E p page w))
      = trace w @ Fetch (buildListUrl (tag p) page) r # tr"
proof -
  let ?url = "buildListUrl (tag p) page"
  obtain r1 w1 where f: "fetchJson (fetch_topics E) ?url w = (r1, w1)"
    by (cases "fetchJson (fetch_topics E) ?url w")
  then obtain rr where t1: "trace w1 = trace w @ [Fetch ?url rr]"
    by (auto simp: fetchJson_def log_event_def split: sum.splits)
  show ?thesis
  proof (cases r1)
    case (Inl e)
    with f t1 show ?thesis by simp
  next
    case (Inr res)
    let ?ts = "topics (topic_list res)"
    obtain r2 w2 where g: "forEach ?ts (processTopic E p) w1 = (r2, w2)"
      by (cases "forEach ?ts (processTopic E p) w1")
    from forEach_trace_grows[of ?ts E p w1] g obtain evs2 where
      t2: "trace w2 = trace w1 @ evs2" by auto
    show ?thesis
    proof (cases r2)
      case (Inl e)
      with f \<open>r1 = Inr res\<close> g t1 t2 show ?thesis by simp
    next
      case (Inr u)
      from crawlPage_trace_grows[of n E p "page + 1" w2] obtain evs3 where
        t3: "trace (snd (crawlPage n E p (page + 1) w2)) = trace w2 @ evs3" by blast
      with f \<open>r1 = Inr res\<close> g Inr t1 t2 show ?thesis by simp
    qed
  qed
qed

lemma crawlPage_decide:
  assumes "fetchJson (fetch_topics E) (buildListUrl (tag p) page) w = (Inr res, w1)"
    and "forEach (topics (topic_list res)) (processTopic E p) w1 = (Inr u, w2)"
  shows "crawlPage (Suc n) E p page w =
     (if falsy (more_topics_url (topic_list res)) \<or> list_ex (stale E p) (topics (topic_list res))
      then (Done, w2) else crawlPage n E p (page + 1) w2)"
  using assms by simp

lemma falsy_iff: "falsy u \<longleftrightarrow> \<not> (\<exists>s. u = Some s \<and> s \<noteq> [])"
  by (cases u) (auto simp: falsy_def)

lemma list_ex_stale:
  "list_ex (stale E p) ts \<longleftrightarrow> (\<exists>t \<in> set ts. isBefore (parseISO E (created_at t)) (since p))"
  by (simp add: list_ex_iff stale_def)

lemma item_events_in:
  assumes "y \<in> set ys" "\<not> stale E p y"
  shows "\<exists>a c. concat (map (item_events E p) ys) =
     a @ [Fetch (buildDetailUrl (topic_id y)) None, AppendFile (outputFile E p) (row E p y) None] @ c"
proof -
  from assms(1) obtain ys1 ys2 where "ys = ys1 @ y # ys2" by (auto dest: split_list)
  then have "concat (map (item_events E p) ys) =
     concat (map (item_events E p) ys1)
     @ [Fetch (buildDetailUrl (topic_id y)) None, AppendFile (outputFile E p) (row E p y) None]
     @ concat (map (item_events E p) ys2)"
    using assms(2) by (simp add: item_events_def)
  then show ?thesis by blast
qed

subsection \<open>The files along a run\<close>

lemma apply_event_not_write: "\<not> is_write ev \<Longrightarrow> apply_event ev f = f"
  by (cases "(ev, f)" rule: apply_event.cases) (auto simp: left_by_def)

lemma replay_Cons: "replay (ev # evs) f = replay evs (apply_event ev f)"
  by (simp add: replay_def)

lemma replay_Nil: "replay [] f = f"
  by (simp add: replay_def)

lemma replay_appends:
  "filter is_write evs = map (\<lambda>l. AppendFile path l None) ls \<Longrightarrow> f path = Some c \<Longrightarrow>
     replay evs f = f(path \<mapsto> c @ concat ls)"
proof (induction evs arbitrary: ls f c)
  case Nil
  then show ?case by (simp add: replay_Nil fun_upd_idem)
next
  case (Cons ev evs)
  show ?case
  proof (cases "is_write ev")
    case False
    with Cons.prems(1) have "filter is_write evs = map (\<lambda>l. AppendFile path l None) ls" by simp
    from Cons.IH[of ls f c, OF this Cons.prems(2)] False show ?thesis
      by (simp add: replay_Cons apply_event_not_write)
  next
    case True
    with Cons.prems(1) obtain l ls' where ls: "ls = l # ls'" and ev: "ev = AppendFile path l None"
      and rest: "filter is_write evs = map (\<lambda>l. AppendFile path l None) ls'"
      by (cases ls) auto
    have step: "apply_event ev f = f(path \<mapsto> c @ l)"
      using ev Cons.prems(2) by (simp add: content_def)
    have f': "(f(path \<mapsto> c @ l)) path = Some (c @ l)" by simp
    from Cons.IH[of ls' "f(path \<mapsto> c @ l)" "c @ l", OF rest f']
    have "replay evs (f(path \<mapsto> c @ l)) = f(path \<mapsto> c @ l @ concat ls')"
      by (simp only: fun_upd_upd append_assoc)
    then show ?thesis using step ls by (simp add: replay_Cons)
  qed
qed

lemma replay_appends_content:
  "filter is_write evs = map (\<lambda>l. AppendFile path l None) ls \<Longrightarrow>
     content (replay evs f) path = content f path @ concat ls"
proof (induction evs arbitrary: ls f)
  case Nil
  then show ?case by (simp add: replay_Nil)
next
  case (Cons ev evs)
  show ?case
  proof (cases "is_write ev")
    case False
    with Cons.prems have "filter is_write evs = map (\<lambda>l. AppendFile path l None) ls" by simp
    from Cons.IH[of ls f, OF this] False show ?thesis
      by (simp add: replay_Cons apply_event_not_write)
  next
    case True
    with Cons.prems obtain l ls' where ls: "ls = l # ls'" and ev: "ev = AppendFile path l None"
      and rest: "filter is_write evs = map (\<lambda>l. AppendFile path l None) ls'"
      by (cases ls) auto
    have "content (apply_event ev f) path = content f path @ l"
      using ev by (simp add: content_def)
    with Cons.IH[of ls' "apply_event ev f", OF rest] show ?thesis using ls by (simp add: replay_Cons)
  qed
qed

lemma appends_of_rows:
  "appends_of E p ds =
     map (\<lambda>l. AppendFile (outputFile E p) l None) (map (row E p) (filter (\<lambda>t. \<not> stale E p t) ds))"
  by (simp add: appends_of_def)

lemma prefix_appends_of:
  "prefix zs (appends_of E p ds) \<Longrightarrow> \<exists>ds'. prefix ds' ds \<and> zs = appends_of E p ds'"
proof (induction ds arbitrary: zs)
  case Nil
  then have "zs = appends_of E p []" by (simp add: appends_of_def)
  then show ?case by blast
next
  case (Cons t ds)
  show ?case
  proof (cases "stale E p t")
    case True
    with Cons.prems have "prefix zs (appends_of E p ds)" by (simp add: appends_of_def)
    from Cons.IH[OF this] obtain ds' where "prefix ds' ds" "zs = appends_of E p ds'" by blast
    with True have "prefix (t # ds') (t # ds) \<and> zs = appends_of E p (t # ds')"
      by (simp add: appends_of_def)
    then show ?thesis by blast
  next
    case False
    show ?thesis
    proof (cases zs)
      case Nil
      then have "prefix [] (t # ds) \<and> zs = appends_of E p []" by (simp add: appends_of_def)
      then show ?thesis by blast
    next
      case (Cons z zs')
      with Cons.prems False have z: "z = AppendFile (outputFile E p) (row E p t) None"
        and "prefix zs' (appends_of E p ds)" by (simp_all add: appends_of_def)
      from Cons.IH[OF this(2)] obtain ds' where "prefix ds' ds" "zs' = appends_of E p ds'" by blast
      with z Cons False have "prefix (t # ds') (t # ds) \<and> zs = appends_of E p (t # ds')"
        by (simp add: appends_of_def)
      then show ?thesis by blast
    qed
  qed
qed

lemma writes_take:
  assumes "filter is_write evs = appends_of E p ds"
  shows "\<exists>ds'. prefix ds' ds \<and> filter is_write (take k evs) = appends_of E p ds'"
proof -
  have "prefix (take k evs) evs" by (rule take_is_prefix)
  then have "prefix (filter is_write (take k evs)) (filter is_write evs)"
    by (rule filter_mono_prefix)
  with assms show ?thesis using prefix_appends_of by metis
qed

lemma createCsvHeader_ok:
  "writeFile_rejects E (files w) (outputFile E p) header = None \<Longrightarrow>
     createCsvHeader E p w =
       (Inr (), w\<lparr>files := (files w)(outputFile E p \<mapsto> header),
                  trace := trace w @ [WriteFile (outputFile E p) header None]\<rparr>)"
  by (simp add: createCsvHeader_def fs_writeFile_def log_event_def)

lemma createCsvHeader_rejected:
  "writeFile_rejects E (files w) (outputFile E p) header = Some r \<Longrightarrow>
     createCsvHeader E p w =
       (Inl (toError (rejected_with r)),
        w\<lparr>files := left_by r (outputFile E p) header (files w),
          trace := trace w @ [WriteFile (outputFile E p) header (Some r)]\<rparr>)"
  by (simp add: createCsvHeader_def fs_writeFile_def log_event_def)

lemma replay_after_header:
  assumes "filter is_write evs = appends_of E p ds"
  shows "replay (WriteFile (outputFile E p) header None # evs) f
     = f(outputFile E p \<mapsto> header @ concat (map (row E p) (filter (\<lambda>t. \<not> stale E p t) ds)))"
proof -
  let ?f1 = "f(outputFile E p \<mapsto> header)"
  have "filter is_write evs = map (\<lambda>l. AppendFile (outputFile E p) l None)
      (map (row E p) (filter (\<lambda>t. \<not> stale E p t) ds))"
    using assms by (simp only: appends_of_rows)
  moreover have "?f1 (outputFile E p) = Some header" by simp
  ultimately have "replay evs ?f1
      = ?f1(outputFile E p \<mapsto> header @ concat (map (row E p) (filter (\<lambda>t. \<not> stale E p t) ds)))"
    by (rule replay_appends)
  then show ?thesis by (simp add: replay_Cons)
qed

lemma crawlNvidia_run:
  assumes run: "crawlNvidia n E p w = (r, w')"
    and hdr: "writeFile_rejects E (files w) (outputFile E p) header = None"
  shows "\<exists>evs ds. extends w (WriteFile (outputFile E p) header None # evs) w'
      \<and> prefix ds (discovered E p 1 n)
      \<and> filter is_write evs = appends_of E p ds
      \<and> (r = Done \<longrightarrow> ds = discovered E p 1 n)
      \<and> (case r of
            Failed e' \<Rightarrow> \<exists>pre ev. evs = pre @ [ev, ConsoleError e'] \<and> clean pre
                            \<and> event_error ev = Some e'
          | _ \<Rightarrow> clean evs)"
proof -
  let ?out = "outputFile E p"
  let ?w1 = "w\<lparr>files := (files w)(?out \<mapsto> header), trace := trace w @ [WriteFile ?out header None]\<rparr>"
  have h: "createCsvHeader E p w = (Inr (), ?w1)" by (rule createCsvHeader_ok[OF hdr])
  have e0: "extends w [WriteFile ?out header None] ?w1"
    by (simp add: extends_def replay_def)
  obtain r0 w2 where c: "crawlPage n E p 1 ?w1 = (r0, w2)" by (cases "crawlPage n E p 1 ?w1")
  from crawlPage_run[OF c] obtain ds evs0 where
    e1: "extends ?w1 evs0 w2" and sh: "run_shape E p r0 (discovered E p 1 n) ds evs0" by blast
  from sh have pre: "prefix ds (discovered E p 1 n)" and wr: "filter is_write evs0 = appends_of E p ds"
    by (simp_all add: run_shape_def)
  show ?thesis
  proof (cases r0)
    case (Failed e)
    with run h c have rw: "r = Failed e" "w' = log_event (ConsoleError e) w2"
      by (simp_all add: crawlNvidia_def)
    have "extends w2 [ConsoleError e] w'" using rw(2) by (simp add: extends_def replay_def log_event_def)
    with e1 have "extends ?w1 (evs0 @ [ConsoleError e]) w'" by (rule extends_trans)
    with e0 have x: "extends w ([WriteFile ?out header None] @ evs0 @ [ConsoleError e]) w'"
      by (rule extends_trans)
    from sh Failed obtain pre0 ev where s0: "evs0 = pre0 @ [ev]" "clean pre0" "event_error ev = Some e"
      by (auto simp: run_shape_def)
    then have "evs0 @ [ConsoleError e] = pre0 @ [ev, ConsoleError e]" by simp
    with s0 have "\<exists>pre ev. evs0 @ [ConsoleError e] = pre @ [ev, ConsoleError e] \<and> clean pre
        \<and> event_error ev = Some e" by blast
    moreover have "filter is_write (evs0 @ [ConsoleError e]) = appends_of E p ds" using wr by simp
    ultimately have "extends w (WriteFile ?out header None # (evs0 @ [ConsoleError e])) w'
      \<and> prefix ds (discovered E p 1 n)
      \<and> filter is_write (evs0 @ [ConsoleError e]) = appends_of E p ds
      \<and> (r = Done \<longrightarrow> ds = discovered E p 1 n)
      \<and> (case r of
            Failed e' \<Rightarrow> \<exists>pre ev. evs0 @ [ConsoleError e] = pre @ [ev, ConsoleError e'] \<and> clean pre
                            \<and> event_error ev = Some e'
          | _ \<Rightarrow> clean (evs0 @ [ConsoleError e]))"
      using x pre rw(1) by simp
    then show ?thesis by blast
  next
    case Done
    with run h c have rw: "r = Done" "w' = w2" by (simp_all add: crawlNvidia_def)
    from e0 e1 have x: "extends w ([WriteFile ?out header None] @ evs0) w2" by (rule extends_trans)
    from sh Done have "clean evs0" "ds = discovered E p 1 n" by (simp_all add: run_shape_def)
    then have "extends w (WriteFile ?out header None # evs0) w'
      \<and> prefix ds (discovered E p 1 n)
      \<and> filter is_write evs0 = appends_of E p ds
      \<and> (r = Done \<longrightarrow> ds = discovered E p 1 n)
      \<and> (case r of
            Failed e' \<Rightarrow> \<exists>pre ev. evs0 = pre @ [ev, ConsoleError e'] \<and> clean pre
                            \<and> event_error ev = Some e'
          | _ \<Rightarrow> clean evs0)"
      using x pre wr rw by simp
    then show ?thesis by blast
  next
    case Unfinished
    with run h c have rw: "r = Unfinished" "w' = w2" by (simp_all add: crawlNvidia_def)
    from e0 e1 have x: "extends w ([WriteFile ?out header None] @ evs0) w2" by (rule extends_trans)
    from sh Unfinished have "clean evs0" by (simp_all add: run_shape_def)
    then have "extends w (WriteFile ?out header None # evs0) w'
      \<and> prefix ds (discovered E p 1 n)
      \<and> filter is_write evs0 = appends_of E p ds
      \<and> (r = Done \<longrightarrow> ds = discovered E p 1 n)
      \<and> (case r of
            Failed e' \<Rightarrow> \<exists>pre ev. evs0 = pre @ [ev, ConsoleError e'] \<and> clean pre
                            \<and> event_error ev = Some e'
          | _ \<Rightarrow> clean evs0)"
      using x pre wr rw by simp
    then show ?thesis by blast
  qed
qed

subsection \<open>A run that fails and a run that succeeds\<close>

lemma sw_stale: "succeeds_where E E' \<Longrightarrow> stale E' p t = stale E p t"
  by (simp add: succeeds_where_def stale_def)

lemma sw_outputFile: "succeeds_where E E' \<Longrightarrow> outputFile E' p = outputFile E p"
  by (simp add: succeeds_where_def outputFile_def)

lemma sw_detail: "succeeds_where E E' \<Longrightarrow> detail_of E t = Inr d \<Longrightarrow> detail_of E' t = Inr d"
  by (simp add: succeeds_where_def detail_of_def)

lemma sw_processTopic_ok:
  assumes sw: "succeeds_where E E'" and ok: "processTopic E p t w = (Inr u, w1)"
  shows "processTopic E' p t w = (Inr u, w1)"
proof (cases "stale E p t")
  case True
  with ok sw show ?thesis by (simp add: processTopic_stale sw_stale)
next
  case False
  then have ns': "\<not> stale E' p t" using sw by (simp add: sw_stale)
  show ?thesis
  proof (cases "detail_of E t")
    case (Inl e)
    with False ok show ?thesis by (simp add: processTopic_fetch_fails)
  next
    case (Inr d)
    then have d': "detail_of E' t = Inr d" using sw by (rule sw_detail[rotated])
    have r: "row E' p t = row E p t" using Inr d' by (simp add: row_def)
    have o: "outputFile E' p = outputFile E p" using sw by (rule sw_outputFile)
    show ?thesis
    proof (cases "appendFile_rejects E (files w) (outputFile E p) (row E p t)")
      case (Some th)
      with False Inr ok show ?thesis by (simp add: processTopic_append_fails)
    next
      case None
      then have "appendFile_rejects E' (files w) (outputFile E' p) (row E' p t) = None"
        using sw r o by (simp add: succeeds_where_def)
      from processTopic_saves[OF ns' d' this] processTopic_saves[OF False Inr None] ok
      show ?thesis by (simp add: r o item_events_def False ns')
    qed
  qed
qed

lemma processTopic_fail_files:
  assumes "processTopic E p t w = (Inl e, w1)"
  shows "files w1 = files w"
proof -
  from processTopic_fail_extends[OF assms] obtain fe where
    "fail_events E p t e fe" "extends w fe w1" by blast
  then show ?thesis
    by (auto simp: fail_events_def extends_def replay_def)
qed

lemma forEach_grows:
  "prefix (content (files w) (outputFile E p))
     (content (files (snd (forEach ts (processTopic E p) w))) (outputFile E p))"
proof -
  obtain r w' where g: "forEach ts (processTopic E p) w = (r, w')"
    by (cases "forEach ts (processTopic E p) w")
  have "\<exists>evs ds. extends w evs w' \<and> filter is_write evs = appends_of E p ds"
  proof (cases r)
    case (Inl e)
    with g forEach_fail_extends[of ts E p w e w'] obtain xs t fe where
      x: "fail_events E p t e fe" "extends w (concat (map (item_events E p) xs) @ fe) w'" by blast
    from fail_events_shape[OF x(1)] have "filter is_write fe = []" by blast
    then have "filter is_write (concat (map (item_events E p) xs) @ fe) = appends_of E p xs"
      by (simp add: writes_item_events)
    with x(2) show ?thesis by blast
  next
    case (Inr u)
    with g forEach_ok_extends[of ts E p w u w'] writes_item_events[of E p ts]
    show ?thesis by blast
  qed
  then obtain evs ds where "files w' = replay evs (files w)"
    "filter is_write evs = map (\<lambda>l. AppendFile (outputFile E p) l None)
       (map (row E p) (filter (\<lambda>t. \<not> stale E p t) ds))"
    by (auto simp: extends_def appends_of_rows)
  then have "content (files w') (outputFile E p) = content (files w) (outputFile E p)
      @ concat (map (row E p) (filter (\<lambda>t. \<not> stale E p t) ds))"
    by (simp add: replay_appends_content)
  then show ?thesis using g by simp
qed

lemma crawlPage_grows:
  "prefix (content (files w) (outputFile E p))
     (content (files (snd (crawlPage n E p page w))) (outputFile E p))"
proof -
  obtain r w' where g: "crawlPage n E p page w = (r, w')" by (cases "crawlPage n E p page w")
  from crawlPage_run[OF g] obtain ds evs where "files w' = replay evs (files w)"
    "filter is_write evs = map (\<lambda>l. AppendFile (outputFile E p) l None)
       (map (row E p) (filter (\<lambda>t. \<not> stale E p t) ds))"
    by (auto simp: extends_def run_shape_def appends_of_rows)
  then have "content (files w') (outputFile E p) = content (files w) (outputFile E p)
      @ concat (map (row E p) (filter (\<lambda>t. \<not> stale E p t) ds))"
    by (simp add: replay_appends_content)
  then show ?thesis using g by simp
qed

lemma sw_forEach_ok:
  assumes sw: "succeeds_where E E'"
  shows "forEach ts (processTopic E p) w = (Inr u, w1) \<Longrightarrow>
     forEach ts (processTopic E' p) w = (Inr u, w1)"
proof (induction ts arbitrary: w)
  case Nil
  then show ?case by simp
next
  case (Cons t ts)
  obtain r wa where step: "processTopic E p t w = (r, wa)" by (cases "processTopic E p t w")
  show ?case
  proof (cases r)
    case (Inl e)
    with step Cons.prems show ?thesis by simp
  next
    case (Inr u1)
    with step have "processTopic E' p t w = (Inr u1, wa)" using sw by (simp add: sw_processTopic_ok)
    moreover from step Inr Cons.prems have "forEach ts (processTopic E p) wa = (Inr u, w1)" by simp
    ultimately show ?thesis using Cons.IH by simp
  qed
qed

lemma sw_forEach_fail:
  assumes sw: "succeeds_where E E'"
  shows "forEach ts (processTopic E p) w = (Inl e, w1) \<Longrightarrow>
     prefix (content (files w1) (outputFile E p))
       (content (files (snd (forEach ts (processTopic E' p) w))) (outputFile E p))"
proof (induction ts arbitrary: w)
  case Nil
  then show ?case by simp
next
  case (Cons t ts)
  have o: "outputFile E' p = outputFile E p" using sw by (rule sw_outputFile)
  obtain r wa where step: "processTopic E p t w = (r, wa)" by (cases "processTopic E p t w")
  show ?case
  proof (cases r)
    case (Inl e1)
    with step Cons.prems have "w1 = wa" "e1 = e" by simp_all
    with step Inl have "files w1 = files w" by (simp add: processTopic_fail_files)
    with forEach_grows[of w E' p "t # ts"] o show ?thesis by simp
  next
    case (Inr u1)
    with step have "processTopic E' p t w = (Inr u1, wa)" using sw by (simp add: sw_processTopic_ok)
    moreover from step Inr Cons.prems have "forEach ts (processTopic E p) wa = (Inl e, w1)" by simp
    ultimately show ?thesis using Cons.IH by simp
  qed
qed

lemma sw_crawlPage:
  assumes sw: "succeeds_where E E'"
  shows "crawlPage n E p page w = (Failed e, w1) \<Longrightarrow> crawlPage m E' p page w = (Done, w2) \<Longrightarrow>
     prefix (content (files w1) (outputFile E p)) (content (files w2) (outputFile E p))"
proof (induction n arbitrary: m page w)
  case 0
  then show ?case by simp
next
  case (Suc n)
  from Suc.prems(2) obtain m' where m: "m = Suc m'" by (cases m) auto
  have o: "outputFile E' p = outputFile E p" using sw by (rule sw_outputFile)
  have st: "stale E' p = stale E p" using sw by (auto simp: sw_stale)
  have tg: "\<And>x. prefix (content (files w) (outputFile E p))
      (content (files (snd (crawlPage m E' p page w))) (outputFile E p))"
    using crawlPage_grows[of w E' p m page] o by simp
  let ?url = "buildListUrl (tag p) page"
  show ?case
  proof (cases "settle (fetch_topics E ?url)")
    case (Inl e1)
    with Suc.prems(1) have "files w1 = files w"
      by (auto simp: fetchJson_def log_event_def)
    with tg Suc.prems(2) show ?thesis by simp
  next
    case (Inr res)
    then have res': "settle (fetch_topics E' ?url) = Inr res"
      using sw by (simp add: succeeds_where_def)
    let ?wa = "log_event (Fetch ?url None) w"
    let ?ts = "topics (topic_list res)"
    let ?stop = "falsy (more_topics_url (topic_list res)) \<or> list_ex (stale E p) ?ts"
    have f: "fetchJson (fetch_topics E) ?url w = (Inr res, ?wa)"
      "fetchJson (fetch_topics E') ?url w = (Inr res, ?wa)"
      using Inr res' by (simp_all add: fetchJson_def)
    obtain r2 wb where g: "forEach ?ts (processTopic E p) ?wa = (r2, wb)"
      by (cases "forEach ?ts (processTopic E p) ?wa")
    obtain r2' wb' where g': "forEach ?ts (processTopic E' p) ?wa = (r2', wb')"
      by (cases "forEach ?ts (processTopic E' p) ?wa")
    show ?thesis
    proof (cases r2)
      case (Inl e2)
      with f(1) g Suc.prems(1) have w1: "w1 = wb" by simp
      from sw_forEach_fail[OF sw, of ?ts p ?wa e2 wb] g Inl g'
      have p1: "prefix (content (files w1) (outputFile E p)) (content (files wb') (outputFile E p))"
        using w1 by simp
      show ?thesis
      proof (cases r2')
        case (Inl e3)
        with f(2) g' Suc.prems(2) m show ?thesis by simp
      next
        case (Inr u')
        show ?thesis
        proof (cases ?stop)
          case True
          with f(2) g' Inr Suc.prems(2) m st have "w2 = wb'" by simp
          with p1 show ?thesis by simp
        next
          case False
          with f(2) g' Inr Suc.prems(2) m st
          have "crawlPage m' E' p (page + 1) wb' = (Done, w2)" by simp
          with crawlPage_grows[of wb' E' p m' "page + 1"] o
          have "prefix (content (files wb') (outputFile E p)) (content (files w2) (outputFile E p))"
            by simp
          with p1 show ?thesis by (rule prefix_order.trans)
        qed
      qed
    next
      case (Inr u)
      with g have g2: "forEach ?ts (processTopic E' p) ?wa = (Inr u, wb)"
        using sw by (simp add: sw_forEach_ok)
      show ?thesis
      proof (cases ?stop)
        case True
        with f(1) g Inr Suc.prems(1) show ?thesis by simp
      next
        case False
        with f(1) g Inr Suc.prems(1)
        have a: "crawlPage n E p (page + 1) wb = (Failed e, w1)" by simp
        from False f(2) g2 Suc.prems(2) m st
        have b: "crawlPage m' E' p (page + 1) wb = (Done, w2)" by simp
        from Suc.IH[OF a b] show ?thesis .
      qed
    qed
  qed
qed

lemma crawlNvidia_header_rejected:
  assumes "writeFile_rejects E (files w) (outputFile E p) header = Some th"
  shows "crawlNvidia n E p w =
     (Failed (toError (rejected_with th)),
      w\<lparr>files := left_by th (outputFile E p) header (files w),
        trace := trace w @ [WriteFile (outputFile E p) header (Some th),
                              ConsoleError (toError (rejected_with th))]\<rparr>)"
  by (simp add: crawlNvidia_def createCsvHeader_rejected[OF assms] log_event_def)

lemma crawlNvidia_fail_trace:
  assumes run: "crawlNvidia n E p w = (Failed e, w')"
  shows "\<exists>pre ev. extends w (pre @ [ev, ConsoleError e]) w' \<and> clean pre \<and> event_error ev = Some e"
proof (cases "writeFile_rejects E (files w) (outputFile E p) header")
  case (Some th)
  from crawlNvidia_header_rejected[OF Some, of n] run
  have e: "e = toError (rejected_with th)"
    and w': "w' = w\<lparr>files := left_by th (outputFile E p) header (files w),
                  trace := trace w @ [WriteFile (outputFile E p) header (Some th),
                              ConsoleError (toError (rejected_with th))]\<rparr>" by simp_all
  have "extends w ([] @ [WriteFile (outputFile E p) header (Some th), ConsoleError e]) w'"
    using e w' by (simp add: extends_def replay_def)
  moreover have "clean []" by (rule clean_Nil)
  moreover have "event_error (WriteFile (outputFile E p) header (Some th)) = Some e"
    using e by simp
  ultimately show ?thesis by blast
next
  case None
  from crawlNvidia_run[OF run None] obtain evs pre ev where
    x: "extends w (WriteFile (outputFile E p) header None # evs) w'"
    and s: "evs = pre @ [ev, ConsoleError e]" "clean pre" "event_error ev = Some e"
    by auto
  have "extends w ((WriteFile (outputFile E p) header None # pre) @ [ev, ConsoleError e]) w'"
    using x s(1) by simp
  moreover have "clean (WriteFile (outputFile E p) header None # pre)"
    using s(2) by (simp add: clean_Cons)
  ultimately show ?thesis using s(3) by blast
qed

lemma crawlNvidia_prefix:
  assumes sw: "succeeds_where E E'"
    and run: "crawlNvidia n E p w = (Failed e, w')"
    and hdr: "writeFile_rejects E (files w) (outputFile E p) header = None"
    and run': "crawlNvidia m E' p w = (Done, w'')"
  shows "prefix (content (files w') (outputFile E p)) (content (files w'') (outputFile E p))"
proof -
  let ?out = "outputFile E p"
  let ?w1 = "w\<lparr>files := (files w)(?out \<mapsto> header), trace := trace w @ [WriteFile ?out header None]\<rparr>"
  have o: "outputFile E' p = ?out" using sw by (rule sw_outputFile)
  have hdr': "writeFile_rejects E' (files w) (outputFile E' p) header = None"
    using sw hdr o by (simp add: succeeds_where_def)
  have h: "createCsvHeader E p w = (Inr (), ?w1)" by (rule createCsvHeader_ok[OF hdr])
  have h': "createCsvHeader E' p w = (Inr (), ?w1)" using createCsvHeader_ok[OF hdr'] o by simp
  obtain r0 wF where c: "crawlPage n E p 1 ?w1 = (r0, wF)" by (cases "crawlPage n E p 1 ?w1")
  with run h have r0: "r0 = Failed e" and w': "w' = log_event (ConsoleError e) wF"
    by (auto simp: crawlNvidia_def split: outcome.splits)
  obtain r1 wD where c': "crawlPage m E' p 1 ?w1 = (r1, wD)" by (cases "crawlPage m E' p 1 ?w1")
  with run' h' have r1: "r1 = Done" and w'': "w'' = wD"
    by (auto simp: crawlNvidia_def split: outcome.splits)
  from sw_crawlPage[OF sw, of n p 1 ?w1 e wF m wD] c c' r0 r1
  have "prefix (content (files wF) ?out) (content (files wD) ?out)" by simp
  then show ?thesis using w' w'' by (simp add: log_event_def)
qed

lemma crawlNvidia_prefix_opened:
  assumes sw: "succeeds_where E E'"
    and run: "crawlNvidia n E p w = (Failed e, w')"
    and rej: "writeFile_rejects E (files w) (outputFile E p) header = Some rj"
    and opened: "written rj = Some k"
    and run': "crawlNvidia m E' p w = (Done, w'')"
  shows "prefix (content (files w') (outputFile E p)) (content (files w'') (outputFile E p))"
proof -
  let ?out = "outputFile E p"
  have o: "outputFile E' p = ?out" using sw by (rule sw_outputFile)
  from crawlNvidia_header_rejected[OF rej, of n] run
  have "files w' = left_by rj ?out header (files w)" by simp
  then have l: "content (files w') ?out = take k header"
    using opened by (simp add: left_by_def content_def)
  have hdr': "writeFile_rejects E' (files w) (outputFile E' p) header = None"
  proof (cases "writeFile_rejects E' (files w) (outputFile E' p) header")
    case None
    then show ?thesis .
  next
    case (Some rj')
    from crawlNvidia_header_rejected[OF Some, of m] run' show ?thesis by simp
  qed
  from crawlNvidia_run[OF run' hdr'] obtain evs ds where
    x: "extends w (WriteFile (outputFile E' p) header None # evs) w''"
    and wr: "filter is_write evs = appends_of E' p ds" by blast
  from x replay_after_header[OF wr, of "files w"]
  have "files w'' = (files w)(outputFile E' p \<mapsto>
                   header @ concat (map (row E' p) (filter (\<lambda>t. \<not> stale E' p t) ds)))"
    by (simp add: extends_def)
  then have r: "content (files w'') ?out
      = header @ concat (map (row E' p) (filter (\<lambda>t. \<not> stale E' p t) ds))"
    using o by (simp add: content_def)
  have "prefix (take k header) header" by (rule take_is_prefix)
  then show ?thesis unfolding l r by (rule prefix_prefix)
qed

lemma settle_500: "settle (Resolves (Response False 500 js)) = Inl (Error ''HTTP 500'')"
  by (simp add: settle_def string_of_nat.simps digit_def)

lemma crawlNvidia_500:
  assumes hdr: "writeFile_rejects E (files w) (outputFile E p) header = None"
    and st: "fetch_topics E (buildListUrl (tag p) 1) = Resolves (Response False 500 js)"
  shows "crawlNvidia (Suc k) E p w =
     (Failed (Error ''HTTP 500''),
      w\<lparr>files := (files w)(outputFile E p \<mapsto> header),
        trace := trace w @ [WriteFile (outputFile E p) header None,
                            Fetch (buildListUrl (tag p) 1) (Some (Error ''HTTP 500'')),
                            ConsoleError (Error ''HTTP 500'')]\<rparr>)"
proof -
  let ?w1 = "w\<lparr>files := (files w)(outputFile E p \<mapsto> header),
        trace := trace w @ [WriteFile (outputFile E p) header None]\<rparr>"
  have "fetchJson (fetch_topics E) (buildListUrl (tag p) 1) ?w1 =
      (Inl (Error ''HTTP 500''),
       log_event (Fetch (buildListUrl (tag p) 1) (Some (Error ''HTTP 500''))) ?w1)"
    using st by (simp add: fetchJson_def settle_500)
  then have "crawlPage (Suc k) E p 1 ?w1 =
      (Failed (Error ''HTTP 500''),
       log_event (Fetch (buildListUrl (tag p) 1) (Some (Error ''HTTP 500''))) ?w1)"
    by simp
  then show ?thesis
    by (simp add: crawlNvidia_def createCsvHeader_ok[OF hdr] log_event_def del: crawlPage.simps)
qed

section \<open>Claims\<close>

text \<open>
  C1. When a listing page has been fetched and all of its items have been processed
  without a failure, the controller goes on to the next page exactly when the next-page
  link of the page is present (neither null nor empty) and no item of the page has a
  \<^verbatim>\<open>created_at\<close> strictly before \<^verbatim>\<open>since\<close>. In that case the run continues as the
  crawl of the next page from the state reached, and its next call is the fetch of that
  page's listing URL. Otherwise the run ends in \<open>Done\<close> in the state reached: no further
  call is made.
\<close>

theorem C1_next_page_iff:
  assumes "fetchJson (fetch_topics E) (buildListUrl (tag p) page) w = (Inr res, w1)"
    and "forEach (topics (topic_list res)) (processTopic E p) w1 = (Inr u, w2)"
  shows "if (\<exists>s. more_topics_url (topic_list res) = Some s \<and> s \<noteq> [])
            \<and> \<not> (\<exists>t \<in> set (topics (topic_list res)).
                    isBefore (parseISO E (created_at t)) (since p))
         then crawlPage (Suc (Suc n)) E p page w = crawlPage (Suc n) E p (page + 1) w2
            \<and> (\<exists>r tr. trace (snd (crawlPage (Suc (Suc n)) E p page w))
                  = trace w2 @ Fetch (buildListUrl (tag p) (page + 1)) r # tr)
         else crawlPage (Suc n) E p page w = (Done, w2)"
proof -
  let ?stop = "falsy (more_topics_url (topic_list res))
    \<or> list_ex (stale E p) (topics (topic_list res))"
  have cond: "((\<exists>s. more_topics_url (topic_list res) = Some s \<and> s \<noteq> [])
            \<and> \<not> (\<exists>t \<in> set (topics (topic_list res)).
                    isBefore (parseISO E (created_at t)) (since p))) \<longleftrightarrow> \<not> ?stop"
    by (simp add: falsy_iff list_ex_stale)
  show ?thesis
  proof (cases ?stop)
    case True
    then have "crawlPage (Suc n) E p page w = (Done, w2)"
      using crawlPage_decide[OF assms] by (simp del: crawlPage.simps)
    with True show ?thesis unfolding cond by (simp del: crawlPage.simps)
  next
    case False
    then have eq: "crawlPage (Suc (Suc n)) E p page w = crawlPage (Suc n) E p (page + 1) w2"
      using crawlPage_decide[OF assms, of "Suc n"] by (simp del: crawlPage.simps)
    from crawlPage_first_fetch[of n E p "page + 1" w2] eq
    have "\<exists>r tr. trace (snd (crawlPage (Suc (Suc n)) E p page w))
        = trace w2 @ Fetch (buildListUrl (tag p) (page + 1)) r # tr"
      by (simp del: crawlPage.simps)
    with eq False show ?thesis unfolding cond by (simp del: crawlPage.simps)
  qed
qed

theorem C1_next_page_iff_witness:
  "crawlPage (Suc (Suc 0)) (env0 two_pages) params0 1 world0
     = crawlPage (Suc 0) (env0 two_pages) params0 (1 + 1) world1
   \<and> (\<exists>r tr. trace (snd (crawlPage (Suc (Suc 0)) (env0 two_pages) params0 1 world0))
          = trace world1 @ Fetch (buildListUrl (tag params0) (1 + 1)) r # tr)
   \<and> crawlPage (Suc 0) (env0 two_pages) params0 2 world1
     = (Done, snd (forEach [topic_old, topic_undated] (processTopic (env0 two_pages) params0)
         (snd (fetchJson (fetch_topics (env0 two_pages)) (buildListUrl ''cuda'' 2) world1))))"
proof -
  let ?E = "env0 two_pages"
  let ?res1 = "\<lparr>topic_list = \<lparr>topics = [topic_new], more_topics_url = Some ''/tag/cuda?page=2''\<rparr>\<rparr>"
  let ?w1 = "snd (fetchJson (fetch_topics ?E) (buildListUrl ''cuda'' 1) world0)"
  have f1: "fetchJson (fetch_topics ?E) (buildListUrl (tag params0) 1) world0 = (Inr ?res1, ?w1)"
    by (simp add: fixture2_defs fetchJson_def settle_def)
  have g1: "forEach (topics (topic_list ?res1)) (processTopic ?E params0) ?w1 = (Inr (), world1)"
    by (simp add: fixture2_defs run_defs)
  have c1: "(\<exists>s. more_topics_url (topic_list ?res1) = Some s \<and> s \<noteq> [])
            \<and> \<not> (\<exists>t \<in> set (topics (topic_list ?res1)).
                    isBefore (parseISO ?E (created_at t)) (since params0))"
    by (simp add: fixture2_defs isBefore_def)
  let ?res2 = "\<lparr>topic_list = \<lparr>topics = [topic_old, topic_undated], more_topics_url = None\<rparr>\<rparr>"
  let ?w3 = "snd (fetchJson (fetch_topics ?E) (buildListUrl ''cuda'' 2) world1)"
  let ?w4 = "snd (forEach [topic_old, topic_undated] (processTopic ?E params0) ?w3)"
  have f2: "fetchJson (fetch_topics ?E) (buildListUrl (tag params0) 2) world1 = (Inr ?res2, ?w3)"
    by (simp add: fixture_defs two_pages_def fetchJson_def settle_def buildListUrl_def
        string_of_nat.simps digit_def)
  have g2: "forEach (topics (topic_list ?res2)) (processTopic ?E params0) ?w3 = (Inr (), ?w4)"
    by (simp add: fixture_defs two_pages_def run_defs)
  have c2: "\<not> ((\<exists>s. more_topics_url (topic_list ?res2) = Some s \<and> s \<noteq> [])
            \<and> \<not> (\<exists>t \<in> set (topics (topic_list ?res2)).
                    isBefore (parseISO ?E (created_at t)) (since params0)))"
    by simp
  note a = C1_next_page_iff[OF f1 g1, of 0, unfolded if_P[OF c1]]
  note b = C1_next_page_iff[OF f2 g2, of 0, unfolded if_not_P[OF c2]]
  from a b show ?thesis by blast
qed

text \<open>
  C2. A listing item whose \<^verbatim>\<open>created_at\<close> is strictly before \<^verbatim>\<open>since\<close> is passed
  over: processing it succeeds and leaves the state as it is (no detail fetch, no row),
  a page with the item acts on every state as the page without it, and a page that
  contains the item and is processed to its end ends the run in \<open>Done\<close>.
\<close>

theorem C2_stale_item_skipped:
  assumes "isBefore (parseISO E (created_at t)) (since p)"
  shows "processTopic E p t w = (Inr (), w)
     \<and> forEach (xs @ t # ys) (processTopic E p) w0 = forEach (xs @ ys) (processTopic E p) w0
     \<and> (fetchJson (fetch_topics E) (buildListUrl (tag p) page) w = (Inr res, w1)
          \<and> t \<in> set (topics (topic_list res))
          \<and> forEach (topics (topic_list res)) (processTopic E p) w1 = (Inr u, w2)
        \<longrightarrow> crawlPage (Suc n) E p page w = (Done, w2))"
proof -
  have st: "stale E p t" using assms by (simp add: stale_def)
  have a: "\<And>w. processTopic E p t w = (Inr (), w)" using st by (simp add: processTopic_stale)
  have "\<And>w. forEach (t # ys) (processTopic E p) w = forEach ys (processTopic E p) w"
    by (simp add: a)
  then have b: "forEach (xs @ t # ys) (processTopic E p) w0 = forEach (xs @ ys) (processTopic E p) w0"
    by (simp only: forEach_append)
  have c: "fetchJson (fetch_topics E) (buildListUrl (tag p) page) w = (Inr res, w1)
          \<and> t \<in> set (topics (topic_list res))
          \<and> forEach (topics (topic_list res)) (processTopic E p) w1 = (Inr u, w2)
        \<longrightarrow> crawlPage (Suc n) E p page w = (Done, w2)"
  proof
    assume h: "fetchJson (fetch_topics E) (buildListUrl (tag p) page) w = (Inr res, w1)
          \<and> t \<in> set (topics (topic_list res))
          \<and> forEach (topics (topic_list res)) (processTopic E p) w1 = (Inr u, w2)"
    then have "list_ex (stale E p) (topics (topic_list res))"
      using st by (auto simp: list_ex_iff)
    with h show "crawlPage (Suc n) E p page w = (Done, w2)"
      using crawlPage_decide[of E p page w res w1 u w2 n] by (simp del: crawlPage.simps)
  qed
  from a b c show ?thesis by blast
qed

theorem C2_stale_item_skipped_witness:
  "processTopic (env0 (one_page [topic_new, topic_old])) params0 topic_old world0 = (Inr (), world0)
   \<and> forEach ([topic_new] @ topic_old # [topic_undated])
         (processTopic (env0 (one_page [topic_new, topic_old])) params0) world0
       = forEach ([topic_new] @ [topic_undated])
           (processTopic (env0 (one_page [topic_new, topic_old])) params0) world0
   \<and> fst (crawlPage (Suc 0) (env0 (one_page [topic_new, topic_old])) params0 1 world0) = Done"
proof -
  let ?E = "env0 (one_page [topic_new, topic_old])"
  let ?res = "\<lparr>topic_list = \<lparr>topics = [topic_new, topic_old], more_topics_url = None\<rparr>\<rparr>"
  let ?w1 = "snd (fetchJson (fetch_topics ?E) (buildListUrl ''cuda'' 1) world0)"
  let ?w2 = "snd (forEach [topic_new, topic_old] (processTopic ?E params0) ?w1)"
  have st: "isBefore (parseISO ?E (created_at topic_old)) (since params0)"
    by (simp add: fixture3_defs isBefore_def)
  have f: "fetchJson (fetch_topics ?E) (buildListUrl (tag params0) 1) world0 = (Inr ?res, ?w1)"
    by (simp add: fixture3_defs fetchJson_def settle_def)
  have m: "topic_old \<in> set (topics (topic_list ?res))" by simp
  have g: "forEach (topics (topic_list ?res)) (processTopic ?E params0) ?w1 = (Inr (), ?w2)"
    by (simp add: fixture3_defs run_defs)
  from C2_stale_item_skipped[OF st, where w = world0 and xs = "[topic_new]" and ys = "[topic_undated]"
      and ?w0.0 = world0 and page = 1 and res = ?res and ?w1.0 = ?w1 and u = "()" and ?w2.0 = ?w2
      and n = 0] f m g
  show ?thesis by (simp del: crawlPage.simps forEach.simps)
qed

text \<open>
  C3. A stale item does not end the processing of its page: the items after it are
  processed next, from the state the items before it left. When the page is processed to
  its end, the calls made are those of the items before and those of the items after, in
  listing order, and every later item that is not stale has its detail fetch followed by
  the append of its row among them. Only the step to the next page is not taken: the run
  ends in \<open>Done\<close> after this page.
\<close>

theorem C3_stale_item_keeps_page_going:
  assumes "isBefore (parseISO E (created_at t)) (since p)"
  shows "forEach (xs @ t # ys) (processTopic E p) w =
       (case forEach xs (processTopic E p) w of
          (Inl e, w') \<Rightarrow> (Inl e, w')
        | (Inr u, w') \<Rightarrow> forEach ys (processTopic E p) w')
     \<and> (forEach (xs @ t # ys) (processTopic E p) w = (Inr u, w2) \<longrightarrow>
          trace w2 = trace w @ concat (map (item_events E p) xs) @ concat (map (item_events E p) ys)
          \<and> files w2 = replay (concat (map (item_events E p) xs) @ concat (map (item_events E p) ys)) (files w)
          \<and> (\<forall>y \<in> set ys. \<not> isBefore (parseISO E (created_at y)) (since p) \<longrightarrow>
                (\<exists>a c. trace w2 = trace w @ a @
                   [Fetch (buildDetailUrl (topic_id y)) None,
                    AppendFile (outputFile E p) (row E p y) None] @ c)))
     \<and> (fetchJson (fetch_topics E) (buildListUrl (tag p) page) w0 = (Inr res, w)
          \<and> topics (topic_list res) = xs @ t # ys
          \<and> forEach (xs @ t # ys) (processTopic E p) w = (Inr u, w2)
        \<longrightarrow> crawlPage (Suc n) E p page w0 = (Done, w2))"
proof -
  have st: "stale E p t" using assms by (simp add: stale_def)
  have skip: "\<And>w. forEach (t # ys) (processTopic E p) w = forEach ys (processTopic E p) w"
    using st by (simp add: processTopic_stale)
  have a: "forEach (xs @ t # ys) (processTopic E p) w =
       (case forEach xs (processTopic E p) w of
          (Inl e, w') \<Rightarrow> (Inl e, w')
        | (Inr u, w') \<Rightarrow> forEach ys (processTopic E p) w')"
    by (simp only: forEach_append[of xs "t # ys"] skip)
  have b: "forEach (xs @ t # ys) (processTopic E p) w = (Inr u, w2) \<longrightarrow>
          trace w2 = trace w @ concat (map (item_events E p) xs) @ concat (map (item_events E p) ys)
          \<and> files w2 = replay (concat (map (item_events E p) xs) @ concat (map (item_events E p) ys)) (files w)
          \<and> (\<forall>y \<in> set ys. \<not> isBefore (parseISO E (created_at y)) (since p) \<longrightarrow>
                (\<exists>a c. trace w2 = trace w @ a @
                   [Fetch (buildDetailUrl (topic_id y)) None,
                    AppendFile (outputFile E p) (row E p y) None] @ c))"
  proof
    assume ok: "forEach (xs @ t # ys) (processTopic E p) w = (Inr u, w2)"
    have ev: "concat (map (item_events E p) (xs @ t # ys))
        = concat (map (item_events E p) xs) @ concat (map (item_events E p) ys)"
      using st by (simp add: item_events_def)
    from forEach_ok_extends[OF ok] ev
    have ex: "extends w (concat (map (item_events E p) xs) @ concat (map (item_events E p) ys)) w2"
      by simp
    then have tr: "trace w2 = trace w @ concat (map (item_events E p) xs) @ concat (map (item_events E p) ys)"
      and fl: "files w2 = replay (concat (map (item_events E p) xs) @ concat (map (item_events E p) ys)) (files w)"
      by (simp_all add: extends_def)
    have "\<forall>y \<in> set ys. \<not> isBefore (parseISO E (created_at y)) (since p) \<longrightarrow>
                (\<exists>a c. trace w2 = trace w @ a @
                   [Fetch (buildDetailUrl (topic_id y)) None,
                    AppendFile (outputFile E p) (row E p y) None] @ c)"
    proof (intro ballI impI)
      fix y assume y: "y \<in> set ys" "\<not> isBefore (parseISO E (created_at y)) (since p)"
      then have "\<not> stale E p y" by (simp add: stale_def)
      from item_events_in[OF y(1) this] obtain a c where
        "concat (map (item_events E p) ys) =
           a @ [Fetch (buildDetailUrl (topic_id y)) None,
                AppendFile (outputFile E p) (row E p y) None] @ c" by blast
      with tr have "trace w2 = trace w @ (concat (map (item_events E p) xs) @ a) @
           [Fetch (buildDetailUrl (topic_id y)) None,
            AppendFile (outputFile E p) (row E p y) None] @ c" by simp
      then show "\<exists>a c. trace w2 = trace w @ a @
           [Fetch (buildDetailUrl (topic_id y)) None,
            AppendFile (outputFile E p) (row E p y) None] @ c" by blast
    qed
    with tr fl show "trace w2 = trace w @ concat (map (item_events E p) xs) @ concat (map (item_events E p) ys)
          \<and> files w2 = replay (concat (map (item_events E p) xs) @ concat (map (item_events E p) ys)) (files w)
          \<and> (\<forall>y \<in> set ys. \<not> isBefore (parseISO E (created_at y)) (since p) \<longrightarrow>
                (\<exists>a c. trace w2 = trace w @ a @
                   [Fetch (buildDetailUrl (topic_id y)) None,
                    AppendFile (outputFile E p) (row E p y) None] @ c))" by blast
  qed
  have c: "fetchJson (fetch_topics E) (buildListUrl (tag p) page) w0 = (Inr res, w)
          \<and> topics (topic_list res) = xs @ t # ys
          \<and> forEach (xs @ t # ys) (processTopic E p) w = (Inr u, w2)
        \<longrightarrow> crawlPage (Suc n) E p page w0 = (Done, w2)"
  proof
    assume h: "fetchJson (fetch_topics E) (buildListUrl (tag p) page) w0 = (Inr res, w)
          \<and> topics (topic_list res) = xs @ t # ys
          \<and> forEach (xs @ t # ys) (processTopic E p) w = (Inr u, w2)"
    then have "list_ex (stale E p) (topics (topic_list res))"
      using st by (auto simp: list_ex_iff)
    with h show "crawlPage (Suc n) E p page w0 = (Done, w2)"
      using crawlPage_decide[of E p page w0 res w u w2 n] by (simp del: crawlPage.simps)
  qed
  from a b c show ?thesis by blast
qed

theorem C3_stale_item_keeps_page_going_witness:
  "forEach ([] @ topic_old # [topic_new]) (processTopic (env0 (one_page [topic_old, topic_new])) params0)
       (log_event (Fetch (buildListUrl ''cuda'' 1) None) world0)
     = forEach [topic_new] (processTopic (env0 (one_page [topic_old, topic_new])) params0)
         (log_event (Fetch (buildListUrl ''cuda'' 1) None) world0)
   \<and> trace (snd (forEach [topic_old, topic_new]
        (processTopic (env0 (one_page [topic_old, topic_new])) params0)
        (log_event (Fetch (buildListUrl ''cuda'' 1) None) world0)))
      = [Fetch ''https://forums.developer.nvidia.com/tag/cuda.json?solved=no&page=1'' None,
         Fetch ''https://forums.developer.nvidia.com/t/101.json'' None,
         AppendFile ''/out/cuda_topics.csv''
           (''101,\"Hello, World\",\"She said \"\"hi\"\"\",2024-02-01,cuda'' @ [CHR 0x0A]) None]
   \<and> crawlPage (Suc 0) (env0 (one_page [topic_old, topic_new])) params0 1 world0
      = (Done, snd (forEach [topic_old, topic_new]
           (processTopic (env0 (one_page [topic_old, topic_new])) params0)
           (log_event (Fetch (buildListUrl ''cuda'' 1) None) world0)))"
proof -
  let ?E = "env0 (one_page [topic_old, topic_new])"
  let ?res = "\<lparr>topic_list = \<lparr>topics = [topic_old, topic_new], more_topics_url = None\<rparr>\<rparr>"
  let ?w1 = "log_event (Fetch (buildListUrl ''cuda'' 1) None) world0"
  let ?w2 = "snd (forEach [topic_old, topic_new] (processTopic ?E params0) ?w1)"
  have st: "isBefore (parseISO ?E (created_at topic_old)) (since params0)"
    by (simp add: fixture3_defs isBefore_def)
  have f: "fetchJson (fetch_topics ?E) (buildListUrl (tag params0) 1) world0 = (Inr ?res, ?w1)"
    by (simp add: fixture3_defs fetchJson_def settle_def)
  have tp: "topics (topic_list ?res) = [] @ topic_old # [topic_new]" by simp
  have g: "forEach ([] @ topic_old # [topic_new]) (processTopic ?E params0) ?w1 = (Inr (), ?w2)"
    by (simp add: fixture3_defs run_defs)
  have ev: "concat (map (item_events ?E params0) []) @ concat (map (item_events ?E params0) [topic_new])
      = [Fetch ''https://forums.developer.nvidia.com/t/101.json'' None,
         AppendFile ''/out/cuda_topics.csv''
           (''101,\"Hello, World\",\"She said \"\"hi\"\"\",2024-02-01,cuda'' @ [CHR 0x0A]) None]"
    by (simp add: item_events_def row_def detail_of_def fixture3_defs run_defs)
  have tr1: "trace ?w1 = [Fetch ''https://forums.developer.nvidia.com/tag/cuda.json?solved=no&page=1'' None]"
    by (simp add: world0_def log_event_def buildListUrl_def string_of_nat.simps digit_def)
  note c3 = C3_stale_item_keeps_page_going[OF st, where xs = "[]" and ys = "[topic_new]"
      and w = ?w1 and u = "()" and ?w2.0 = ?w2 and ?w0.0 = world0 and page = 1 and res = ?res
      and n = 0]
  from c3 have a: "forEach ([] @ topic_old # [topic_new]) (processTopic ?E params0) ?w1
     = forEach [topic_new] (processTopic ?E params0) ?w1"
    by (simp del: forEach.simps add: forEach.simps(1))
  from c3 g have "trace ?w2 = trace ?w1 @ concat (map (item_events ?E params0) [])
      @ concat (map (item_events ?E params0) [topic_new])" by blast
  then have b: "trace ?w2 = [Fetch ''https://forums.developer.nvidia.com/tag/cuda.json?solved=no&page=1'' None,
         Fetch ''https://forums.developer.nvidia.com/t/101.json'' None,
         AppendFile ''/out/cuda_topics.csv''
           (''101,\"Hello, World\",\"She said \"\"hi\"\"\",2024-02-01,cuda'' @ [CHR 0x0A]) None]"
    unfolding ev tr1 by simp
  from c3 f tp g have c: "crawlPage (Suc 0) ?E params0 1 world0 = (Done, ?w2)" by blast
  from a b c show ?thesis by simp
qed

text \<open>
  C4, as amended. A run that fails has made its calls one after the other up to the call
  that failed: every earlier call succeeded, the failed call comes last, it was made once,
  and the run fails with the error of that call, which is then passed to
  \<^verbatim>\<open>console.error\<close>. The files are those that the calls of the run left: nothing is
  undone. When the header was written, the output file is the header followed by the rows
  of the non-stale items of an initial part of the listing. Unless the header write was
  rejected before it could open the output file, the output file is a prefix of the output
  file of every run that ends in \<open>Done\<close>, from the same state, in an environment that
  answers as this one wherever this one succeeds: it holds an initial part of the header
  when the header write was rejected after it had opened the file, and the header and rows
  otherwise. Conversely, a run that does not fail has made no call that failed. If the header is
  written and the first listing fetch is answered with status 500, the run fails with the
  error \<^verbatim>\<open>HTTP 500\<close> and the output file holds the header line only.
\<close>

theorem C4_failure_aborts:
  "(crawlNvidia n E p w = (Failed e, w') \<longrightarrow>
      (\<exists>pre ev. trace w' = trace w @ pre @ [ev, ConsoleError e] \<and> clean pre
          \<and> event_error ev = Some e
          \<and> files w' = replay (pre @ [ev, ConsoleError e]) (files w))
      \<and> (writeFile_rejects E (files w) (outputFile E p) header = None \<longrightarrow>
           (\<exists>ds. prefix ds (discovered E p 1 n)
              \<and> files w' = (files w)(outputFile E p \<mapsto>
                   header @ concat (map (row E p) (filter (\<lambda>t. \<not> stale E p t) ds)))))
      \<and> ((\<forall>rj. writeFile_rejects E (files w) (outputFile E p) header = Some rj
                \<longrightarrow> written rj \<noteq> None) \<longrightarrow>
           (\<forall>E' m w''. succeeds_where E E' \<and> crawlNvidia m E' p w = (Done, w'') \<longrightarrow>
                 prefix (content (files w') (outputFile E p))
                        (content (files w'') (outputFile E p)))))
   \<and> (crawlNvidia n E p w = (r, w') \<and> (\<forall>x. r \<noteq> Failed x) \<longrightarrow>
        (\<exists>evs. trace w' = trace w @ evs \<and> clean evs))
   \<and> (writeFile_rejects E (files w) (outputFile E p) header = None
        \<and> fetch_topics E (buildListUrl (tag p) 1) = Resolves (Response False 500 js) \<longrightarrow>
      crawlNvidia (Suc k) E p w =
        (Failed (Error ''HTTP 500''),
         w\<lparr>files := (files w)(outputFile E p \<mapsto> header),
           trace := trace w @ [WriteFile (outputFile E p) header None,
                               Fetch (buildListUrl (tag p) 1) (Some (Error ''HTTP 500'')),
                               ConsoleError (Error ''HTTP 500'')]\<rparr>))"
proof (intro conjI impI)
  assume run: "crawlNvidia n E p w = (Failed e, w')"
  from crawlNvidia_fail_trace[OF run] obtain pre ev where
    "extends w (pre @ [ev, ConsoleError e]) w'" "clean pre" "event_error ev = Some e" by blast
  then have "trace w' = trace w @ pre @ [ev, ConsoleError e] \<and> clean pre
          \<and> event_error ev = Some e
          \<and> files w' = replay (pre @ [ev, ConsoleError e]) (files w)"
    by (simp add: extends_def)
  then show "\<exists>pre ev. trace w' = trace w @ pre @ [ev, ConsoleError e] \<and> clean pre
          \<and> event_error ev = Some e
          \<and> files w' = replay (pre @ [ev, ConsoleError e]) (files w)" by blast
next
  assume run: "crawlNvidia n E p w = (Failed e, w')"
    and hdr: "writeFile_rejects E (files w) (outputFile E p) header = None"
  from crawlNvidia_run[OF run hdr] obtain evs ds where
    x: "extends w (WriteFile (outputFile E p) header None # evs) w'"
    and pre: "prefix ds (discovered E p 1 n)"
    and wr: "filter is_write evs = appends_of E p ds" by blast
  from x replay_after_header[OF wr, of "files w"]
  have "files w' = (files w)(outputFile E p \<mapsto>
                   header @ concat (map (row E p) (filter (\<lambda>t. \<not> stale E p t) ds)))"
    by (simp add: extends_def)
  with pre show "\<exists>ds. prefix ds (discovered E p 1 n)
              \<and> files w' = (files w)(outputFile E p \<mapsto>
                   header @ concat (map (row E p) (filter (\<lambda>t. \<not> stale E p t) ds)))" by blast
next
  assume run: "crawlNvidia n E p w = (Failed e, w')"
    and op: "\<forall>rj. writeFile_rejects E (files w) (outputFile E p) header = Some rj
                \<longrightarrow> written rj \<noteq> None"
  show "\<forall>E' m w''. succeeds_where E E' \<and> crawlNvidia m E' p w = (Done, w'') \<longrightarrow>
                 prefix (content (files w') (outputFile E p))
                        (content (files w'') (outputFile E p))"
  proof (cases "writeFile_rejects E (files w) (outputFile E p) header")
    case None
    show ?thesis using crawlNvidia_prefix[OF _ run None] by blast
  next
    case (Some rj)
    with op obtain k where k: "written rj = Some k" by auto
    show ?thesis using crawlNvidia_prefix_opened[OF _ run Some k] by blast
  qed
next
  assume a: "crawlNvidia n E p w = (r, w') \<and> (\<forall>x. r \<noteq> Failed x)"
  show "\<exists>evs. trace w' = trace w @ evs \<and> clean evs"
  proof (cases "writeFile_rejects E (files w) (outputFile E p) header")
    case (Some th)
    from crawlNvidia_header_rejected[OF Some, of n] a show ?thesis by auto
  next
    case None
    from a have run: "crawlNvidia n E p w = (r, w')" by blast
    from crawlNvidia_run[OF run None] a obtain evs where
      "extends w (WriteFile (outputFile E p) header None # evs) w'" "clean evs"
      by (cases r) auto
    then have "trace w' = trace w @ (WriteFile (outputFile E p) header None # evs)
        \<and> clean (WriteFile (outputFile E p) header None # evs)"
      by (simp add: extends_def clean_Cons)
    then show ?thesis by blast
  qed
next
  assume "writeFile_rejects E (files w) (outputFile E p) header = None
        \<and> fetch_topics E (buildListUrl (tag p) 1) = Resolves (Response False 500 js)"
  then show "crawlNvidia (Suc k) E p w =
        (Failed (Error ''HTTP 500''),
         w\<lparr>files := (files w)(outputFile E p \<mapsto> header),
           trace := trace w @ [WriteFile (outputFile E p) header None,
                               Fetch (buildListUrl (tag p) 1) (Some (Error ''HTTP 500'')),
                               ConsoleError (Error ''HTTP 500'')]\<rparr>)"
    using crawlNvidia_500 by blast
qed

theorem C4_failure_aborts_witness:
  "crawlNvidia (Suc 0) (env0 always_500) params0 world0 =
     (Failed (Error ''HTTP 500''),
      \<lparr>files = [''/out/cuda_topics.csv'' \<mapsto> ''id,title,body,created_at,tag'' @ [CHR 0x0A]],
       trace = [WriteFile ''/out/cuda_topics.csv'' (''id,title,body,created_at,tag'' @ [CHR 0x0A]) None,
                Fetch ''https://forums.developer.nvidia.com/tag/cuda.json?solved=no&page=1''
                  (Some (Error ''HTTP 500'')),
                ConsoleError (Error ''HTTP 500'')]\<rparr>)
   \<and> prefix
        (content (files (snd (crawlNvidia (Suc 0) (env0 always_500) params0 world0)))
           ''/out/cuda_topics.csv'')
        (content (files (snd (crawlNvidia (Suc 0) (env0 (one_page [topic_new])) params0 world0)))
           ''/out/cuda_topics.csv'')
   \<and> (\<exists>evs. trace (snd (crawlNvidia (Suc 0) (env0 (one_page [topic_new])) params0 world0))
          = trace world0 @ evs \<and> clean evs)
   \<and> crawlNvidia (Suc 0) (disk_full (env0 (one_page [topic_new]))) params0 world_old =
       (Failed (Error ''ENOSPC''),
        \<lparr>files = [''/out/cuda_topics.csv'' \<mapsto> ''id,''],
         trace = [WriteFile ''/out/cuda_topics.csv'' (''id,title,body,created_at,tag'' @ [CHR 0x0A])
                    (Some (Rejection (ThrownError (Error ''ENOSPC'')) (Some 3))),
                  ConsoleError (Error ''ENOSPC'')]\<rparr>)
   \<and> prefix
        (content (files (snd (crawlNvidia (Suc 0) (disk_full (env0 (one_page [topic_new])))
            params0 world_old))) ''/out/cuda_topics.csv'')
        (content (files (snd (crawlNvidia (Suc 0) (env0 (one_page [topic_new])) params0 world_old)))
           ''/out/cuda_topics.csv'')"
proof -
  let ?E = "env0 always_500"
  let ?E' = "env0 (one_page [topic_new])"
  let ?w' = "snd (crawlNvidia (Suc 0) ?E params0 world0)"
  let ?w'' = "snd (crawlNvidia (Suc 0) ?E' params0 world0)"
  have out: "outputFile ?E params0 = ''/out/cuda_topics.csv''"
    by (simp add: fixture4_defs outputFile_def)
  have hdr: "writeFile_rejects ?E (files world0) (outputFile ?E params0) header = None"
    by (simp add: fixture4_defs)
  have st: "fetch_topics ?E (buildListUrl (tag params0) 1)
      = Resolves (Response False 500 (Inl (ThrownOther ''Unexpected token'')))"
    by (simp add: fixture4_defs)
  have sw: "succeeds_where ?E ?E'"
    by (simp add: succeeds_where_def fixture4_defs settle_def)
  have run': "crawlNvidia (Suc 0) ?E' params0 world0 = (Done, ?w'')"
    by (simp add: fixture4_defs run_defs)
  note c = C4_failure_aborts[where E = ?E and p = params0 and w = world0 and n = "Suc 0" and k = 0
      and e = "Error ''HTTP 500''" and w' = ?w'
      and js = "Inl (ThrownOther ''Unexpected token'')"]
  from c hdr st have run: "crawlNvidia (Suc 0) ?E params0 world0 =
     (Failed (Error ''HTTP 500''),
      world0\<lparr>files := (files world0)(outputFile ?E params0 \<mapsto> header),
        trace := trace world0 @ [WriteFile (outputFile ?E params0) header None,
                            Fetch (buildListUrl (tag params0) 1) (Some (Error ''HTTP 500'')),
                            ConsoleError (Error ''HTTP 500'')]\<rparr>)"
    by blast
  then have run1: "crawlNvidia (Suc 0) ?E params0 world0 = (Failed (Error ''HTTP 500''), ?w')"
    by simp
  from hdr have op: "\<forall>rj. writeFile_rejects ?E (files world0) (outputFile ?E params0) header = Some rj
      \<longrightarrow> written rj \<noteq> None" by simp
  from c run1 op have "\<forall>E' m w''. succeeds_where ?E E' \<and> crawlNvidia m E' params0 world0 = (Done, w'') \<longrightarrow>
      prefix (content (files ?w') (outputFile ?E params0)) (content (files w'') (outputFile ?E params0))"
    by blast
  with sw run' have pf: "prefix (content (files ?w') (outputFile ?E params0))
      (content (files ?w'') (outputFile ?E params0))" by blast
  from C4_failure_aborts[where E = ?E' and p = params0 and w = world0 and n = "Suc 0" and r = Done and w' = ?w''] run'
  have cl: "\<exists>evs. trace ?w'' = trace world0 @ evs \<and> clean evs" by blast
  have a: "crawlNvidia (Suc 0) ?E params0 world0 =
     (Failed (Error ''HTTP 500''),
      \<lparr>files = [''/out/cuda_topics.csv'' \<mapsto> ''id,title,body,created_at,tag'' @ [CHR 0x0A]],
       trace = [WriteFile ''/out/cuda_topics.csv'' (''id,title,body,created_at,tag'' @ [CHR 0x0A]) None,
                Fetch ''https://forums.developer.nvidia.com/tag/cuda.json?solved=no&page=1''
                  (Some (Error ''HTTP 500'')),
                ConsoleError (Error ''HTTP 500'')]\<rparr>)"
    unfolding run out
    by (simp add: world0_def header_def buildListUrl_def params0_def string_of_nat.simps digit_def)
  let ?R = "disk_full (env0 (one_page [topic_new]))"
  let ?wr = "snd (crawlNvidia (Suc 0) ?R params0 world_old)"
  let ?wd = "snd (crawlNvidia (Suc 0) ?E' params0 world_old)"
  have outr: "outputFile ?R params0 = ''/out/cuda_topics.csv''"
    by (simp add: fixture4_defs outputFile_def)
  have full: "crawlNvidia (Suc 0) ?R params0 world_old =
       (Failed (Error ''ENOSPC''),
        \<lparr>files = [''/out/cuda_topics.csv'' \<mapsto> ''id,''],
         trace = [WriteFile ''/out/cuda_topics.csv'' (''id,title,body,created_at,tag'' @ [CHR 0x0A])
                    (Some (Rejection (ThrownError (Error ''ENOSPC'')) (Some 3))),
                  ConsoleError (Error ''ENOSPC'')]\<rparr>)"
    by (simp add: fixture4_defs run_defs)
  then have runr: "crawlNvidia (Suc 0) ?R params0 world_old = (Failed (Error ''ENOSPC''), ?wr)"
    by simp
  have opr: "\<forall>rj. writeFile_rejects ?R (files world_old) (outputFile ?R params0) header = Some rj
      \<longrightarrow> written rj \<noteq> None"
    by (simp add: fixture4_defs)
  have swr: "succeeds_where ?R ?E'"
    by (simp add: succeeds_where_def fixture4_defs)
  have rund: "crawlNvidia (Suc 0) ?E' params0 world_old = (Done, ?wd)"
    by (simp add: fixture4_defs run_defs)
  from C4_failure_aborts[where E = ?R and p = params0 and w = world_old and n = "Suc 0"
      and e = "Error ''ENOSPC''" and w' = ?wr] runr opr
  have "\<forall>E' m w''. succeeds_where ?R E' \<and> crawlNvidia m E' params0 world_old = (Done, w'') \<longrightarrow>
      prefix (content (files ?wr) (outputFile ?R params0)) (content (files w'') (outputFile ?R params0))"
    by blast
  with swr rund have pfr: "prefix (content (files ?wr) (outputFile ?R params0))
      (content (files ?wd) (outputFile ?R params0))" by blast
  from a pf cl full pfr show ?thesis unfolding out outr by blast
qed

text \<open>
  The output file exists with other content and the header write is rejected before the
  file is opened (the file may not be written to): the run fails and the file, which the
  failed call did not touch, is not a prefix of what the run produces when every call
  succeeds.
\<close>

theorem C4_failure_aborts_counterexample:
  "fst (crawlNvidia (Suc 0) (read_only (env0 (one_page [topic_new]))) params0 world_old)
     = Failed (Error ''EACCES'')
   \<and> succeeds_where (read_only (env0 (one_page [topic_new]))) (env0 (one_page [topic_new]))
   \<and> fst (crawlNvidia (Suc 0) (env0 (one_page [topic_new])) params0 world_old) = Done
   \<and> \<not> prefix
        (content (files (snd (crawlNvidia (Suc 0) (read_only (env0 (one_page [topic_new])))
            params0 world_old))) ''/out/cuda_topics.csv'')
        (content (files (snd (crawlNvidia (Suc 0) (env0 (one_page [topic_new])) params0 world_old)))
           ''/out/cuda_topics.csv'')"
proof -
  have a: "fst (crawlNvidia (Suc 0) (read_only (env0 (one_page [topic_new]))) params0 world_old)
     = Failed (Error ''EACCES'')"
    by (simp add: fixture4_defs run_defs)
  have b: "succeeds_where (read_only (env0 (one_page [topic_new]))) (env0 (one_page [topic_new]))"
    by (simp add: succeeds_where_def fixture4_defs)
  have c: "fst (crawlNvidia (Suc 0) (env0 (one_page [topic_new])) params0 world_old) = Done"
    by (simp add: fixture4_defs run_defs)
  have d: "content (files (snd (crawlNvidia (Suc 0) (read_only (env0 (one_page [topic_new])))
            params0 world_old))) ''/out/cuda_topics.csv'' = ''old''"
    by (simp add: fixture4_defs run_defs)
  have e: "content (files (snd (crawlNvidia (Suc 0) (env0 (one_page [topic_new])) params0 world_old)))
           ''/out/cuda_topics.csv''
      = ''id,title,body,created_at,tag'' @ [CHR 0x0A]
        @ ''101,\"Hello, World\",\"She said \"\"hi\"\"\",2024-02-01,cuda'' @ [CHR 0x0A]"
    by (simp add: fixture4_defs run_defs)
  have "\<not> prefix ''old'' (''id,title,body,created_at,tag'' @ [CHR 0x0A]
        @ ''101,\"Hello, World\",\"She said \"\"hi\"\"\",2024-02-01,cuda'' @ [CHR 0x0A])"
    by simp
  with a b c d e show ?thesis by simp
qed

text \<open>
  C5, as amended. In a run whose header write is accepted, the header write is the first
  call, and the writes that follow it are appends to the output file, one for each
  non-stale item of an initial part \<open>ds\<close> of the listing in discovery order (the pages in
  order, each in the order the server gave; the whole of it when the run ends in \<open>Done\<close>),
  with the row of that item. At every point of the run after the header write (after any
  number \<open>k\<close> of the later calls) the files are the initial ones but for the output file,
  which holds the header followed by the rows of the non-stale items processed so far. Each
  listing entry is written once; when the entries discovered are pairwise distinct, so are
  the items written.
\<close>

theorem C5_append_only:
  assumes run: "crawlNvidia n E p w = (r, w')"
    and hdr: "writeFile_rejects E (files w) (outputFile E p) header = None"
  shows "\<exists>evs ds.
      trace w' = trace w @ WriteFile (outputFile E p) header None # evs
    \<and> prefix ds (discovered E p 1 n)
    \<and> (r = Done \<longrightarrow> ds = discovered E p 1 n)
    \<and> filter is_write evs = appends_of E p ds
    \<and> (\<forall>k \<le> length evs. \<exists>ds'. prefix ds' ds \<and>
          replay (WriteFile (outputFile E p) header None # take k evs) (files w)
            = (files w)(outputFile E p \<mapsto>
                header @ concat (map (row E p) (filter (\<lambda>t. \<not> stale E p t) ds'))))
    \<and> files w' = (files w)(outputFile E p \<mapsto>
                header @ concat (map (row E p) (filter (\<lambda>t. \<not> stale E p t) ds)))
    \<and> (distinct ds \<longrightarrow> distinct (filter (\<lambda>t. \<not> stale E p t) ds))"
proof -
  let ?out = "outputFile E p"
  from crawlNvidia_run[OF run hdr] obtain evs ds where
    x: "extends w (WriteFile ?out header None # evs) w'"
    and pre: "prefix ds (discovered E p 1 n)"
    and wr: "filter is_write evs = appends_of E p ds"
    and dn: "r = Done \<longrightarrow> ds = discovered E p 1 n" by blast
  from x have tr: "trace w' = trace w @ WriteFile ?out header None # evs"
    and fl: "files w' = replay (WriteFile ?out header None # evs) (files w)"
    by (simp_all add: extends_def)
  have every: "\<forall>k \<le> length evs. \<exists>ds'. prefix ds' ds \<and>
          replay (WriteFile ?out header None # take k evs) (files w)
            = (files w)(?out \<mapsto> header @ concat (map (row E p) (filter (\<lambda>t. \<not> stale E p t) ds')))"
  proof (intro allI impI)
    fix k
    from writes_take[OF wr, of k] obtain ds' where
      d: "prefix ds' ds" "filter is_write (take k evs) = appends_of E p ds'" by blast
    from replay_after_header[OF d(2), of "files w"] d(1)
    show "\<exists>ds'. prefix ds' ds \<and>
          replay (WriteFile ?out header None # take k evs) (files w)
            = (files w)(?out \<mapsto> header @ concat (map (row E p) (filter (\<lambda>t. \<not> stale E p t) ds')))"
      by blast
  qed
  have final: "files w' = (files w)(?out \<mapsto>
                header @ concat (map (row E p) (filter (\<lambda>t. \<not> stale E p t) ds)))"
    using fl replay_after_header[OF wr, of "files w"] by simp
  have "distinct ds \<longrightarrow> distinct (filter (\<lambda>t. \<not> stale E p t) ds)" by simp
  with tr pre dn wr every final show ?thesis by blast
qed

theorem C5_append_only_witness:
  "content (files (snd (crawlNvidia (Suc 0) (env0 (one_page [topic_new, topic_old, topic_undated]))
       params0 world0))) ''/out/cuda_topics.csv''
     = ''id,title,body,created_at,tag'' @ [CHR 0x0A]
       @ ''101,\"Hello, World\",\"She said \"\"hi\"\"\",2024-02-01,cuda'' @ [CHR 0x0A]
       @ ''103,Odd,\"She said \"\"hi\"\"\",soon,cuda'' @ [CHR 0x0A]
   \<and> (\<exists>ds'. prefix ds' [topic_new, topic_old, topic_undated]
        \<and> replay (take 4 (trace (snd (crawlNvidia (Suc 0)
               (env0 (one_page [topic_new, topic_old, topic_undated])) params0 world0))))
             (files world0)
          = (files world0)(''/out/cuda_topics.csv'' \<mapsto> header @ concat (map
               (row (env0 (one_page [topic_new, topic_old, topic_undated])) params0)
               (filter (\<lambda>t. \<not> stale (env0 (one_page [topic_new, topic_old, topic_undated])) params0 t)
                  ds'))))
   \<and> distinct (filter (\<lambda>t. \<not> stale (env0 (one_page [topic_new, topic_old, topic_undated])) params0 t)
         [topic_new, topic_old, topic_undated])"
proof -
  let ?E = "env0 (one_page [topic_new, topic_old, topic_undated])"
  let ?w' = "snd (crawlNvidia (Suc 0) ?E params0 world0)"
  have run: "crawlNvidia (Suc 0) ?E params0 world0 = (Done, ?w')"
    by (simp add: fixture3_defs run_defs)
  have hdr: "writeFile_rejects ?E (files world0) (outputFile ?E params0) header = None"
    by (simp add: fixture3_defs)
  have disc: "discovered ?E params0 1 (Suc 0) = [topic_new, topic_old, topic_undated]"
    by (simp add: fixture3_defs run_defs)
  have rows: "concat (map (row ?E params0)
        (filter (\<lambda>t. \<not> stale ?E params0 t) [topic_new, topic_old, topic_undated]))
      = ''101,\"Hello, World\",\"She said \"\"hi\"\"\",2024-02-01,cuda'' @ [CHR 0x0A]
       @ ''103,Odd,\"She said \"\"hi\"\"\",soon,cuda'' @ [CHR 0x0A]"
    by (simp add: row_def detail_of_def fixture3_defs run_defs)
  have out: "outputFile ?E params0 = ''/out/cuda_topics.csv''"
    by (simp add: fixture3_defs outputFile_def)
  have len: "length (trace ?w') = 6"
    by (simp add: fixture3_defs run_defs)
  have dd: "distinct [topic_new, topic_old, topic_undated]"
    by (simp add: fixture3_defs)
  from C5_append_only[OF run hdr] obtain evs ds where
    tr: "trace ?w' = trace world0 @ WriteFile (outputFile ?E params0) header None # evs"
    and ds: "ds = discovered ?E params0 1 (Suc 0)"
    and every: "\<forall>k \<le> length evs. \<exists>ds'. prefix ds' ds \<and>
          replay (WriteFile (outputFile ?E params0) header None # take k evs) (files world0)
            = (files world0)(outputFile ?E params0 \<mapsto>
                header @ concat (map (row ?E params0) (filter (\<lambda>t. \<not> stale ?E params0 t) ds')))"
    and fl: "files ?w' = (files world0)(outputFile ?E params0 \<mapsto>
        header @ concat (map (row ?E params0) (filter (\<lambda>t. \<not> stale ?E params0 t) ds)))"
    and di: "distinct ds \<longrightarrow> distinct (filter (\<lambda>t. \<not> stale ?E params0 t) ds)"
    by blast
  from fl ds disc have "content (files ?w') (outputFile ?E params0)
      = header @ concat (map (row ?E params0)
          (filter (\<lambda>t. \<not> stale ?E params0 t) [topic_new, topic_old, topic_undated]))"
    by (simp add: content_def)
  then have a: "content (files ?w') ''/out/cuda_topics.csv''
     = ''id,title,body,created_at,tag'' @ [CHR 0x0A]
       @ ''101,\"Hello, World\",\"She said \"\"hi\"\"\",2024-02-01,cuda'' @ [CHR 0x0A]
       @ ''103,Odd,\"She said \"\"hi\"\"\",soon,cuda'' @ [CHR 0x0A]"
    unfolding rows out by (simp add: header_def)
  from tr have tr': "trace ?w' = WriteFile (outputFile ?E params0) header None # evs"
    by (simp add: world0_def)
  with len have "3 \<le> length evs" by simp
  with every obtain ds' where "prefix ds' ds"
    "replay (WriteFile (outputFile ?E params0) header None # take 3 evs) (files world0)
       = (files world0)(outputFile ?E params0 \<mapsto>
           header @ concat (map (row ?E params0) (filter (\<lambda>t. \<not> stale ?E params0 t) ds')))"
    by blast
  moreover have "take 4 (trace ?w') = WriteFile (outputFile ?E params0) header None # take 3 evs"
    unfolding tr' by (simp add: take_Cons')
  ultimately have b: "\<exists>ds'. prefix ds' [topic_new, topic_old, topic_undated]
        \<and> replay (take 4 (trace ?w')) (files world0)
          = (files world0)(''/out/cuda_topics.csv'' \<mapsto> header @ concat (map (row ?E params0)
               (filter (\<lambda>t. \<not> stale ?E params0 t) ds')))"
    using ds disc out by auto
  from di ds disc dd have c: "distinct (filter (\<lambda>t. \<not> stale ?E params0 t)
      [topic_new, topic_old, topic_undated])" by simp
  from a b c show ?thesis by blast
qed

text \<open>
  The server lists the same item on page 1 and on page 2: the run ends in \<open>Done\<close> and
  has appended the row of the item twice.
\<close>

theorem C5_append_only_counterexample:
  "fst (crawlNvidia (Suc (Suc 0)) (env0 same_twice) params0 world0) = Done
   \<and> filter is_write (trace (snd (crawlNvidia (Suc (Suc 0)) (env0 same_twice) params0 world0)))
     = [WriteFile ''/out/cuda_topics.csv'' (''id,title,body,created_at,tag'' @ [CHR 0x0A]) None,
        AppendFile ''/out/cuda_topics.csv''
          (''101,\"Hello, World\",\"She said \"\"hi\"\"\",2024-02-01,cuda'' @ [CHR 0x0A]) None,
        AppendFile ''/out/cuda_topics.csv''
          (''101,\"Hello, World\",\"She said \"\"hi\"\"\",2024-02-01,cuda'' @ [CHR 0x0A]) None]"
  by (simp add: fixture3_defs same_twice_def run_defs)

text \<open>
  C6, as amended. A successful \<open>saveTopic\<close> appends one line to the output file: the id
  in decimal, the escaped title, the escaped cleaned body, \<^verbatim>\<open>created_at\<close> and the tag,
  in this order, separated by commas and ended by a line feed. The title and the body
  are escaped by \<open>escapeCsv\<close>; the id, \<^verbatim>\<open>created_at\<close> and the tag are written as they
  are. When \<^verbatim>\<open>created_at\<close> and the tag contain no comma, line feed or double quote, the
  line is the one in which every field is escaped (\<open>csvLine_spec\<close>).
\<close>

theorem C6_line_format:
  assumes "saveTopic E p t d w = (Inr u, w')"
  shows "\<exists>line. content (files w') (outputFile E p) = content (files w) (outputFile E p) @ line
     \<and> line = string_of_int (topic_id t) @ '','' @ escapeCsv (title t) @ '',''
          @ escapeCsv (stripHtml (firstPostHtml d)) @ '','' @ created_at t @ '','' @ tag p
          @ [CHR 0x0A]
     \<and> (plain (created_at t) \<and> plain (tag p) \<longrightarrow>
          line = csvLine_spec p t (stripHtml (firstPostHtml d)))"
proof -
  have "csvLine p t (stripHtml (firstPostHtml d)) =
      string_of_int (topic_id t) @ '','' @ escapeCsv (title t) @ '',''
          @ escapeCsv (stripHtml (firstPostHtml d)) @ '','' @ created_at t @ '','' @ tag p
          @ [CHR 0x0A]"
    by (simp add: csvLine_def)
  moreover have "plain (created_at t) \<and> plain (tag p) \<longrightarrow>
      csvLine p t (stripHtml (firstPostHtml d)) = csvLine_spec p t (stripHtml (firstPostHtml d))"
    by (simp add: csvLine_def csvLine_spec_def escapeCsv_plain plain_string_of_int)
  ultimately show ?thesis using saveTopic_ok[OF assms] by metis
qed

theorem C6_line_format_witness:
  "content (files (snd (saveTopic (env0 (one_page [])) params0 topic_new detail0 world0)))
       (outputFile (env0 (one_page [])) params0)
     = csvLine_spec params0 topic_new (stripHtml (firstPostHtml detail0))
   \<and> csvLine_spec params0 topic_new (stripHtml (firstPostHtml detail0))
     = ''101,\"Hello, World\",\"She said \"\"hi\"\"\",2024-02-01,cuda'' @ [CHR 0x0A]"
proof -
  let ?E = "env0 (one_page [])"
  let ?w' = "snd (saveTopic ?E params0 topic_new detail0 world0)"
  have ok: "saveTopic ?E params0 topic_new detail0 world0 = (Inr (), ?w')"
    by (simp add: fixture3_defs run_defs)
  have pl: "plain (created_at topic_new) \<and> plain (tag params0)"
    by (simp add: plain_def fixture3_defs)
  have c0: "content (files world0) (outputFile ?E params0) = []"
    by (simp add: world0_def content_def)
  have v: "csvLine_spec params0 topic_new (stripHtml (firstPostHtml detail0))
     = ''101,\"Hello, World\",\"She said \"\"hi\"\"\",2024-02-01,cuda'' @ [CHR 0x0A]"
    by (simp add: fixture3_defs run_defs csvLine_spec_def)
  from C6_line_format[OF ok] pl c0 v show ?thesis by auto
qed

text \<open>
  With the tag \<^verbatim>\<open>c,d\<close> the line that is appended is not the one in which every field
  is escaped: the tag is written without quotes.
\<close>

theorem C6_line_format_counterexample:
  "content (files (snd (saveTopic (env0 (one_page [])) (params0\<lparr>tag := ''c,d''\<rparr>) topic_new detail0 world0)))
       (outputFile (env0 (one_page [])) (params0\<lparr>tag := ''c,d''\<rparr>))
     \<noteq> csvLine_spec (params0\<lparr>tag := ''c,d''\<rparr>) topic_new (stripHtml (firstPostHtml detail0))"
  by (simp add: fixture3_defs run_defs csvLine_spec_def)

text \<open>
  C7. A string that contains a comma, a line feed or a double quote is returned between
  double quotes, with every double quote of the string doubled and every other character
  as it is; \<^verbatim>\<open>Hello, World\<close> and \<^verbatim>\<open>She said "hi"\<close> are the examples of the
  specification.
\<close>

theorem C7_escapeCsv_quotes:
  "(CHR '','' \<in> set s \<or> CHR 0x0A \<in> set s \<or> CHR ''\"'' \<in> set s \<longrightarrow>
      escapeCsv s =
        CHR ''\"''
          # concat (map (\<lambda>c. if c = CHR ''\"'' then [CHR ''\"'', CHR ''\"''] else [c]) s)
          @ [CHR ''\"''])
   \<and> escapeCsv ''Hello, World'' = ''\"Hello, World\"''
   \<and> escapeCsv ''She said \"hi\"'' = ''\"She said \"\"hi\"\"\"''"
  by (simp add: escapeCsv_def dq)

theorem C7_escapeCsv_quotes_witness:
  "escapeCsv [CHR ''a'', CHR 0x0A, CHR ''\"'']
     = [CHR ''\"'', CHR ''a'', CHR 0x0A, CHR ''\"'', CHR ''\"'', CHR ''\"'']"
  using C7_escapeCsv_quotes [of "[CHR ''a'', CHR 0x0A, CHR ''\"'']"] by simp

text \<open>
  C8. \<open>stripHtml\<close> is total (its recursion terminates on every string). Its result is the
  input with tags taken out and every other character kept in order, and no tag is left
  in the result. A string without \<open><\<close> or without \<open>>\<close>, such as an unclosed tag, is
  returned as it is. \<^verbatim>\<open><p>Hello <b>world</b></p>\<close> gives \<^verbatim>\<open>Hello world\<close>.
\<close>

theorem C8_stripHtml_removes_tags:
  "removes_tags s (stripHtml s)
   \<and> (\<nexists>t. is_tag t \<and> sublist t (stripHtml s))
   \<and> (CHR ''<'' \<notin> set s \<or> CHR ''>'' \<notin> set s \<longrightarrow> stripHtml s = s)
   \<and> stripHtml ''<p>Hello <b>world</b></p>'' = ''Hello world''"
proof -
  have "\<nexists>t. is_tag t \<and> sublist t (stripHtml s)"
    using tag_shape stripHtml_no_shape by blast
  moreover have "stripHtml ''<p>Hello <b>world</b></p>'' = ''Hello world''"
    by (simp add: match_tag_def)
  ultimately show ?thesis using removes_tags_stripHtml stripHtml_unchanged by blast
qed

theorem C8_stripHtml_removes_tags_witness:
  "removes_tags ''a<b>c<>d'' ''ac<>d''
   \<and> (\<nexists>t. is_tag t \<and> sublist t ''ac<>d'')
   \<and> stripHtml ''x <y'' = ''x <y''"
proof -
  have v: "stripHtml ''a<b>c<>d'' = ''ac<>d''"
    by (simp add: match_tag_def)
  have n: "CHR ''<'' \<notin> set ''x <y'' \<or> CHR ''>'' \<notin> set ''x <y''" by simp
  from C8_stripHtml_removes_tags [of "''a<b>c<>d''"] C8_stripHtml_removes_tags [of "''x <y''"] n show ?thesis
    unfolding v by blast
qed

text \<open>
  C9. The body that \<open>saveTopic\<close> takes from a detail is the one the specification
  selects: the rendered body of the first post if present, otherwise its raw body,
  otherwise the empty string. This body, stripped of its tags and escaped, is the third
  field of the line that \<open>saveTopic\<close> appends to the output file, and \<open>saveTopic\<close> does
  nothing else: when the append is accepted, the output file is what it was followed by
  that line, and \<open>saveTopic\<close> succeeds; when the append is rejected, \<open>saveTopic\<close> fails
  with the error of the append. For a detail with no posts the third field is empty, and no
  error arises from the absence of posts. A detail that was fetched for an item that is not
  stale is passed to \<open>saveTopic\<close> as it was received.
\<close>

theorem C9_body_fallback:
  "firstPostHtml detail = selected_body_spec detail
   \<and> (let line = string_of_int (topic_id t) @ '','' @ escapeCsv (title t) @ '',''
                   @ escapeCsv (stripHtml (selected_body_spec detail)) @ '',''
                   @ created_at t @ '','' @ tag p @ [CHR 0x0A]
      in saveTopic E p t detail w =
           (case appendFile_rejects E (files w) (outputFile E p) line of
              None \<Rightarrow>
                (Inr (),
                 w\<lparr>files := (files w)(outputFile E p \<mapsto>
                                content (files w) (outputFile E p) @ line),
                   trace := trace w @ [AppendFile (outputFile E p) line None]\<rparr>)
            | Some th \<Rightarrow>
                (Inl (toError th),
                 w\<lparr>trace := trace w @ [AppendFile (outputFile E p) line (Some th)]\<rparr>)))
   \<and> ((\<forall>ps xs. post_stream detail = Some ps \<and> posts ps = Some xs \<longrightarrow> xs = []) \<longrightarrow>
        (let line = string_of_int (topic_id t) @ '','' @ escapeCsv (title t) @ '','' @ '',''
                     @ created_at t @ '','' @ tag p @ [CHR 0x0A]
         in saveTopic E p t detail w =
              (case appendFile_rejects E (files w) (outputFile E p) line of
                 None \<Rightarrow>
                   (Inr (),
                    w\<lparr>files := (files w)(outputFile E p \<mapsto>
                                   content (files w) (outputFile E p) @ line),
                      trace := trace w @ [AppendFile (outputFile E p) line None]\<rparr>)
               | Some th \<Rightarrow>
                   (Inl (toError th),
                    w\<lparr>trace := trace w @ [AppendFile (outputFile E p) line (Some th)]\<rparr>))))
   \<and> (\<not> stale E p t \<and> detail_of E t = Inr detail \<longrightarrow>
        processTopic E p t w =
          saveTopic E p t detail (log_event (Fetch (buildDetailUrl (topic_id t)) None) w))"
proof -
  have a: "firstPostHtml detail = selected_body_spec detail"
  proof (cases "post_stream detail")
    case None
    then show ?thesis
      by (simp add: firstPostHtml_def firstPost_def nullish_def selected_body_spec_def)
  next
    case ps: (Some ps)
    show ?thesis
    proof (cases "posts ps")
      case None
      with ps show ?thesis
        by (simp add: firstPostHtml_def firstPost_def nullish_def selected_body_spec_def)
    next
      case (Some xs)
      with ps show ?thesis
        by (cases xs)
          (simp_all add: firstPostHtml_def firstPost_def nullish_def selected_body_spec_def
            split: option.splits)
    qed
  qed
  have l: "csvLine p t (stripHtml (selected_body_spec detail))
      = string_of_int (topic_id t) @ '','' @ escapeCsv (title t) @ '',''
          @ escapeCsv (stripHtml (selected_body_spec detail)) @ '',''
          @ created_at t @ '','' @ tag p @ [CHR 0x0A]"
    by (simp add: csvLine_def)
  have b: "saveTopic E p t detail w =
           (case appendFile_rejects E (files w) (outputFile E p)
                   (csvLine p t (stripHtml (selected_body_spec detail))) of
              None \<Rightarrow>
                (Inr (),
                 w\<lparr>files := (files w)(outputFile E p \<mapsto>
                                content (files w) (outputFile E p)
                                  @ csvLine p t (stripHtml (selected_body_spec detail))),
                   trace := trace w @ [AppendFile (outputFile E p)
                                (csvLine p t (stripHtml (selected_body_spec detail))) None]\<rparr>)
            | Some th \<Rightarrow>
                (Inl (toError th),
                 w\<lparr>trace := trace w @ [AppendFile (outputFile E p)
                                (csvLine p t (stripHtml (selected_body_spec detail))) (Some th)]\<rparr>))"
    by (simp add: saveTopic_def Let_def fs_appendFile_def log_event_def a split: option.splits)
  have c: "\<not> stale E p t \<and> detail_of E t = Inr detail \<longrightarrow>
        processTopic E p t w =
          saveTopic E p t detail (log_event (Fetch (buildDetailUrl (topic_id t)) None) w)"
    by (simp add: processTopic_def fetchJson_def detail_of_def)
  have e: "(\<forall>ps xs. post_stream detail = Some ps \<and> posts ps = Some xs \<longrightarrow> xs = [])
      \<Longrightarrow> escapeCsv (stripHtml (selected_body_spec detail)) = []"
    by (auto simp: selected_body_spec_def escapeCsv_def split: option.splits list.splits)
  show ?thesis
    unfolding Let_def
  proof (intro conjI impI)
    show "firstPostHtml detail = selected_body_spec detail" by (rule a)
  next
    show "saveTopic E p t detail w =
       (case appendFile_rejects E (files w) (outputFile E p)
          (string_of_int (topic_id t) @ '','' @ escapeCsv (title t) @ '',''
            @ escapeCsv (stripHtml (selected_body_spec detail)) @ '',''
            @ created_at t @ '','' @ tag p @ [CHR 0x0A]) of
          None \<Rightarrow>
            (Inr (),
             w\<lparr>files := (files w)(outputFile E p \<mapsto>
                  content (files w) (outputFile E p) @
                  string_of_int (topic_id t) @ '','' @ escapeCsv (title t) @ '',''
                    @ escapeCsv (stripHtml (selected_body_spec detail)) @ '',''
                    @ created_at t @ '','' @ tag p @ [CHR 0x0A]),
               trace := trace w @ [AppendFile (outputFile E p)
                  (string_of_int (topic_id t) @ '','' @ escapeCsv (title t) @ '',''
                    @ escapeCsv (stripHtml (selected_body_spec detail)) @ '',''
                    @ created_at t @ '','' @ tag p @ [CHR 0x0A]) None]\<rparr>)
        | Some th \<Rightarrow>
            (Inl (toError th),
             w\<lparr>trace := trace w @ [AppendFile (outputFile E p)
                  (string_of_int (topic_id t) @ '','' @ escapeCsv (title t) @ '',''
                    @ escapeCsv (stripHtml (selected_body_spec detail)) @ '',''
                    @ created_at t @ '','' @ tag p @ [CHR 0x0A]) (Some th)]\<rparr>))"
      using b unfolding l .
  next
    assume "\<forall>ps xs. post_stream detail = Some ps \<and> posts ps = Some xs \<longrightarrow> xs = []"
    from e[OF this] have l0: "csvLine p t (stripHtml (selected_body_spec detail))
      = string_of_int (topic_id t) @ '','' @ escapeCsv (title t) @ '','' @ '',''
          @ created_at t @ '','' @ tag p @ [CHR 0x0A]"
      unfolding l by simp
    show "saveTopic E p t detail w =
       (case appendFile_rejects E (files w) (outputFile E p)
          (string_of_int (topic_id t) @ '','' @ escapeCsv (title t) @ '','' @ '',''
            @ created_at t @ '','' @ tag p @ [CHR 0x0A]) of
          None \<Rightarrow>
            (Inr (),
             w\<lparr>files := (files w)(outputFile E p \<mapsto>
                  content (files w) (outputFile E p) @
                  string_of_int (topic_id t) @ '','' @ escapeCsv (title t) @ '','' @ '',''
                    @ created_at t @ '','' @ tag p @ [CHR 0x0A]),
               trace := trace w @ [AppendFile (outputFile E p)
                  (string_of_int (topic_id t) @ '','' @ escapeCsv (title t) @ '','' @ '',''
                    @ created_at t @ '','' @ tag p @ [CHR 0x0A]) None]\<rparr>)
        | Some th \<Rightarrow>
            (Inl (toError th),
             w\<lparr>trace := trace w @ [AppendFile (outputFile E p)
                  (string_of_int (topic_id t) @ '','' @ escapeCsv (title t) @ '','' @ '',''
                    @ created_at t @ '','' @ tag p @ [CHR 0x0A]) (Some th)]\<rparr>))"
      using b unfolding l0 .
  next
    assume "\<not> stale E p t \<and> detail_of E t = Inr detail"
    then show "processTopic E p t w =
          saveTopic E p t detail (log_event (Fetch (buildDetailUrl (topic_id t)) None) w)"
      using c by blast
  qed
qed

theorem C9_body_fallback_witness:
  "saveTopic (env0 (one_page [])) params0 topic_new detail0 world0 =
     (Inr (),
      \<lparr>files = [''/out/cuda_topics.csv'' \<mapsto>
                  ''101,\"Hello, World\",\"She said \"\"hi\"\"\",2024-02-01,cuda'' @ [CHR 0x0A]],
       trace = [AppendFile ''/out/cuda_topics.csv''
                  (''101,\"Hello, World\",\"She said \"\"hi\"\"\",2024-02-01,cuda'' @ [CHR 0x0A])
                  None]\<rparr>)
   \<and> saveTopic (env0 (one_page [])) params0 topic_old detail_raw world_old =
     (Inr (),
      \<lparr>files = [''/out/cuda_topics.csv'' \<mapsto>
                  ''old102,Old,\"see this, please\",2023-12-01,cuda'' @ [CHR 0x0A]],
       trace = [AppendFile ''/out/cuda_topics.csv''
                  (''102,Old,\"see this, please\",2023-12-01,cuda'' @ [CHR 0x0A]) None]\<rparr>)
   \<and> saveTopic (env0 (one_page [])) params0 topic_old detail_bare world0 =
     (Inr (),
      \<lparr>files = [''/out/cuda_topics.csv'' \<mapsto> ''102,Old,,2023-12-01,cuda'' @ [CHR 0x0A]],
       trace = [AppendFile ''/out/cuda_topics.csv''
                  (''102,Old,,2023-12-01,cuda'' @ [CHR 0x0A]) None]\<rparr>)
   \<and> saveTopic (env0 (one_page [])) params0 topic_new detail_no_posts world0 =
     (Inr (),
      \<lparr>files = [''/out/cuda_topics.csv'' \<mapsto> ''101,\"Hello, World\",,2024-02-01,cuda'' @ [CHR 0x0A]],
       trace = [AppendFile ''/out/cuda_topics.csv''
                  (''101,\"Hello, World\",,2024-02-01,cuda'' @ [CHR 0x0A]) None]\<rparr>)
   \<and> processTopic (env0 (one_page [])) params0 topic_new world0 =
     (Inr (),
      \<lparr>files = [''/out/cuda_topics.csv'' \<mapsto>
                  ''101,\"Hello, World\",\"She said \"\"hi\"\"\",2024-02-01,cuda'' @ [CHR 0x0A]],
       trace = [Fetch ''https://forums.developer.nvidia.com/t/101.json'' None,
                AppendFile ''/out/cuda_topics.csv''
                  (''101,\"Hello, World\",\"She said \"\"hi\"\"\",2024-02-01,cuda'' @ [CHR 0x0A])
                  None]\<rparr>)"
proof -
  let ?E = "env0 (one_page [])"
  let ?w1 = "log_event (Fetch (buildDetailUrl (topic_id topic_new)) None) world0"
  have o: "outputFile ?E params0 = ''/out/cuda_topics.csv''"
    by (simp add: fixture3_defs outputFile_def)
  have acc: "\<And>f path data. appendFile_rejects ?E f path data = None"
    by (simp add: fixture3_defs)
  have s0: "escapeCsv (stripHtml (selected_body_spec detail0)) = ''\"She said \"\"hi\"\"\"''"
    by (simp add: selected_body_spec_def detail0_def escapeCsv_def match_tag_def)
  have s1: "escapeCsv (stripHtml (selected_body_spec detail_raw)) = ''\"see this, please\"''"
    by (simp add: selected_body_spec_def detail_raw_def escapeCsv_def match_tag_def)
  have s2: "escapeCsv (stripHtml (selected_body_spec detail_bare)) = []"
    by (simp add: selected_body_spec_def detail_bare_def escapeCsv_def)
  have n: "\<forall>ps xs. post_stream detail_no_posts = Some ps \<and> posts ps = Some xs \<longrightarrow> xs = []"
    by (auto simp: detail_no_posts_def)
  have ns: "\<not> stale ?E params0 topic_new \<and> detail_of ?E topic_new = Inr detail0"
    by (simp add: stale_def isBefore_def detail_of_def settle_def fixture3_defs)
  have tn: "string_of_int (topic_id topic_new) = ''101''" "escapeCsv (title topic_new) = ''\"Hello, World\"''"
    "created_at topic_new = ''2024-02-01''"
    by (simp_all add: topic_new_def string_of_int_def string_of_nat.simps digit_def escapeCsv_def)
  have to: "string_of_int (topic_id topic_old) = ''102''" "escapeCsv (title topic_old) = ''Old''"
    "created_at topic_old = ''2023-12-01''"
    by (simp_all add: topic_old_def string_of_int_def string_of_nat.simps digit_def escapeCsv_def)
  have tg: "tag params0 = ''cuda''" by (simp add: params0_def)
  have u: "buildDetailUrl (topic_id topic_new) = ''https://forums.developer.nvidia.com/t/101.json''"
    by (simp add: topic_new_def buildDetailUrl_def string_of_int_def string_of_nat.simps digit_def)
  note c0 = C9_body_fallback[of detail0 topic_new params0 ?E world0, unfolded Let_def acc o s0 tn tg]
  note c1 = C9_body_fallback[of detail_raw topic_old params0 ?E world_old, unfolded Let_def acc o s1 to tg]
  note c2 = C9_body_fallback[of detail_bare topic_old params0 ?E world0, unfolded Let_def acc o s2 to tg]
  note c3 = C9_body_fallback[of detail_no_posts topic_new params0 ?E world0, unfolded Let_def acc o tn tg]
  note c4 = C9_body_fallback[of detail0 topic_new params0 ?E ?w1, unfolded Let_def acc o s0 tn tg]
  from c0 have a: "saveTopic ?E params0 topic_new detail0 world0 =
     (Inr (),
      \<lparr>files = [''/out/cuda_topics.csv'' \<mapsto>
                  ''101,\"Hello, World\",\"She said \"\"hi\"\"\",2024-02-01,cuda'' @ [CHR 0x0A]],
       trace = [AppendFile ''/out/cuda_topics.csv''
                  (''101,\"Hello, World\",\"She said \"\"hi\"\"\",2024-02-01,cuda'' @ [CHR 0x0A])
                  None]\<rparr>)"
    by (simp add: world0_def content_def)
  from c1 have b: "saveTopic ?E params0 topic_old detail_raw world_old =
     (Inr (),
      \<lparr>files = [''/out/cuda_topics.csv'' \<mapsto>
                  ''old102,Old,\"see this, please\",2023-12-01,cuda'' @ [CHR 0x0A]],
       trace = [AppendFile ''/out/cuda_topics.csv''
                  (''102,Old,\"see this, please\",2023-12-01,cuda'' @ [CHR 0x0A]) None]\<rparr>)"
    by (simp add: world_old_def content_def)
  from c2 have c: "saveTopic ?E params0 topic_old detail_bare world0 =
     (Inr (),
      \<lparr>files = [''/out/cuda_topics.csv'' \<mapsto> ''102,Old,,2023-12-01,cuda'' @ [CHR 0x0A]],
       trace = [AppendFile ''/out/cuda_topics.csv''
                  (''102,Old,,2023-12-01,cuda'' @ [CHR 0x0A]) None]\<rparr>)"
    by (simp add: world0_def content_def)
  from c3 n have "saveTopic ?E params0 topic_new detail_no_posts world0 =
     (case None :: thrown option of
        None \<Rightarrow>
          (Inr (),
           world0\<lparr>files := (files world0)(''/out/cuda_topics.csv'' \<mapsto>
                content (files world0) ''/out/cuda_topics.csv'' @
                ''101'' @ '','' @ ''\"Hello, World\"'' @ '','' @ '','' @ ''2024-02-01'' @ '',''
                  @ ''cuda'' @ [CHR 0x0A]),
             trace := trace world0 @ [AppendFile ''/out/cuda_topics.csv''
                (''101'' @ '','' @ ''\"Hello, World\"'' @ '','' @ '','' @ ''2024-02-01'' @ '',''
                  @ ''cuda'' @ [CHR 0x0A]) None]\<rparr>)
      | Some th \<Rightarrow>
          (Inl (toError th),
           world0\<lparr>trace := trace world0 @ [AppendFile ''/out/cuda_topics.csv''
                (''101'' @ '','' @ ''\"Hello, World\"'' @ '','' @ '','' @ ''2024-02-01'' @ '',''
                  @ ''cuda'' @ [CHR 0x0A]) (Some th)]\<rparr>))"
    by blast
  then have d: "saveTopic ?E params0 topic_new detail_no_posts world0 =
     (Inr (),
      \<lparr>files = [''/out/cuda_topics.csv'' \<mapsto> ''101,\"Hello, World\",,2024-02-01,cuda'' @ [CHR 0x0A]],
       trace = [AppendFile ''/out/cuda_topics.csv''
                  (''101,\"Hello, World\",,2024-02-01,cuda'' @ [CHR 0x0A]) None]\<rparr>)"
    by (simp add: world0_def content_def)
  from c0 ns have "processTopic ?E params0 topic_new world0 = saveTopic ?E params0 topic_new detail0 ?w1"
    by blast
  moreover from c4 have "saveTopic ?E params0 topic_new detail0 ?w1 =
     (Inr (),
      \<lparr>files = [''/out/cuda_topics.csv'' \<mapsto>
                  ''101,\"Hello, World\",\"She said \"\"hi\"\"\",2024-02-01,cuda'' @ [CHR 0x0A]],
       trace = [Fetch ''https://forums.developer.nvidia.com/t/101.json'' None,
                AppendFile ''/out/cuda_topics.csv''
                  (''101,\"Hello, World\",\"She said \"\"hi\"\"\",2024-02-01,cuda'' @ [CHR 0x0A])
                  None]\<rparr>)"
    unfolding u by (simp add: world0_def content_def log_event_def)
  ultimately have e: "processTopic ?E params0 topic_new world0 =
     (Inr (),
      \<lparr>files = [''/out/cuda_topics.csv'' \<mapsto>
                  ''101,\"Hello, World\",\"She said \"\"hi\"\"\",2024-02-01,cuda'' @ [CHR 0x0A]],
       trace = [Fetch ''https://forums.developer.nvidia.com/t/101.json'' None,
                AppendFile ''/out/cuda_topics.csv''
                  (''101,\"Hello, World\",\"She said \"\"hi\"\"\",2024-02-01,cuda'' @ [CHR 0x0A])
                  None]\<rparr>)"
    by simp
  from a b c d e show ?thesis by blast
qed

text \<open>
  C10. A listing item whose \<^verbatim>\<open>created_at\<close> parses to Invalid Date is not before
  \<^verbatim>\<open>since\<close>. Its detail is fetched, and its row is appended when the fetch succeeds and
  the append is accepted. On a listing page that holds the item and whose items were all
  processed, the detail request and the append of the row of the item are among the calls
  made, in the place of the item among those of the other items, and the files are those
  that these calls leave. After such a page \<open>crawlPage\<close> decides as the next-page link and
  the other items of the page make it decide: the item does not stop the pagination. When
  the page has a next-page link and none of its other items is stale, the next call of the
  crawl is the request of the next page.
\<close>

theorem C10_invalid_date_not_stale:
  assumes "parseISO E (created_at t) = None"
  shows "\<not> isBefore (parseISO E (created_at t)) (since p)
     \<and> processTopic E p t w =
         (case detail_of E t of
            Inl e \<Rightarrow> (Inl e, log_event (Fetch (buildDetailUrl (topic_id t)) (Some e)) w)
          | Inr d \<Rightarrow> saveTopic E p t d (log_event (Fetch (buildDetailUrl (topic_id t)) None) w))
     \<and> ((\<exists>d. detail_of E t = Inr d)
          \<and> appendFile_rejects E (files w) (outputFile E p) (row E p t) = None \<longrightarrow>
        processTopic E p t w =
          (Inr (),
           w\<lparr>files := (files w)(outputFile E p \<mapsto> content (files w) (outputFile E p) @ row E p t),
             trace := trace w @ [Fetch (buildDetailUrl (topic_id t)) None,
                                 AppendFile (outputFile E p) (row E p t) None]\<rparr>))
     \<and> (fetchJson (fetch_topics E) (buildListUrl (tag p) page) w0 = (Inr res, w1)
          \<and> topics (topic_list res) = xs @ t # ys
          \<and> forEach (xs @ t # ys) (processTopic E p) w1 = (Inr u, w2)
        \<longrightarrow> trace w2 = trace w1 @ concat (map (item_events E p) xs)
                 @ [Fetch (buildDetailUrl (topic_id t)) None,
                    AppendFile (outputFile E p) (row E p t) None]
                 @ concat (map (item_events E p) ys)
            \<and> files w2 = replay (concat (map (item_events E p) xs)
                 @ [Fetch (buildDetailUrl (topic_id t)) None,
                    AppendFile (outputFile E p) (row E p t) None]
                 @ concat (map (item_events E p) ys)) (files w1)
            \<and> crawlPage (Suc n) E p page w0 =
                 (if falsy (more_topics_url (topic_list res))
                      \<or> (\<exists>x \<in> set (xs @ ys). isBefore (parseISO E (created_at x)) (since p))
                  then (Done, w2)
                  else crawlPage n E p (page + 1) w2)
            \<and> (\<not> falsy (more_topics_url (topic_list res))
                 \<and> (\<forall>x \<in> set (xs @ ys). \<not> isBefore (parseISO E (created_at x)) (since p))
               \<longrightarrow> (\<exists>r tr. trace (snd (crawlPage (Suc (Suc n)) E p page w0))
                      = trace w2 @ Fetch (buildListUrl (tag p) (page + 1)) r # tr)))"
proof -
  have ns: "\<not> isBefore (parseISO E (created_at t)) (since p)"
    using assms by (simp add: isBefore_def)
  then have nst: "\<not> stale E p t" by (simp add: stale_def)
  have b: "processTopic E p t w =
         (case detail_of E t of
            Inl e \<Rightarrow> (Inl e, log_event (Fetch (buildDetailUrl (topic_id t)) (Some e)) w)
          | Inr d \<Rightarrow> saveTopic E p t d (log_event (Fetch (buildDetailUrl (topic_id t)) None) w))"
    using nst by (simp add: processTopic_def fetchJson_def detail_of_def split: sum.splits)
  have c: "(\<exists>d. detail_of E t = Inr d)
          \<and> appendFile_rejects E (files w) (outputFile E p) (row E p t) = None \<longrightarrow>
        processTopic E p t w =
          (Inr (),
           w\<lparr>files := (files w)(outputFile E p \<mapsto> content (files w) (outputFile E p) @ row E p t),
             trace := trace w @ [Fetch (buildDetailUrl (topic_id t)) None,
                                 AppendFile (outputFile E p) (row E p t) None]\<rparr>)"
    using processTopic_saves[OF nst] nst by (auto simp: item_events_def)
  have d: "fetchJson (fetch_topics E) (buildListUrl (tag p) page) w0 = (Inr res, w1)
          \<and> topics (topic_list res) = xs @ t # ys
          \<and> forEach (xs @ t # ys) (processTopic E p) w1 = (Inr u, w2)
        \<longrightarrow> trace w2 = trace w1 @ concat (map (item_events E p) xs)
                 @ [Fetch (buildDetailUrl (topic_id t)) None,
                    AppendFile (outputFile E p) (row E p t) None]
                 @ concat (map (item_events E p) ys)
            \<and> files w2 = replay (concat (map (item_events E p) xs)
                 @ [Fetch (buildDetailUrl (topic_id t)) None,
                    AppendFile (outputFile E p) (row E p t) None]
                 @ concat (map (item_events E p) ys)) (files w1)
            \<and> crawlPage (Suc n) E p page w0 =
                 (if falsy (more_topics_url (topic_list res))
                      \<or> (\<exists>x \<in> set (xs @ ys). isBefore (parseISO E (created_at x)) (since p))
                  then (Done, w2)
                  else crawlPage n E p (page + 1) w2)
            \<and> (\<not> falsy (more_topics_url (topic_list res))
                 \<and> (\<forall>x \<in> set (xs @ ys). \<not> isBefore (parseISO E (created_at x)) (since p))
               \<longrightarrow> (\<exists>r tr. trace (snd (crawlPage (Suc (Suc n)) E p page w0))
                      = trace w2 @ Fetch (buildListUrl (tag p) (page + 1)) r # tr))"
  proof (intro impI, elim conjE)
    assume f: "fetchJson (fetch_topics E) (buildListUrl (tag p) page) w0 = (Inr res, w1)"
      and tp: "topics (topic_list res) = xs @ t # ys"
      and fe: "forEach (xs @ t # ys) (processTopic E p) w1 = (Inr u, w2)"
    let ?evs = "concat (map (item_events E p) xs)
                 @ [Fetch (buildDetailUrl (topic_id t)) None,
                    AppendFile (outputFile E p) (row E p t) None]
                 @ concat (map (item_events E p) ys)"
    have ie: "concat (map (item_events E p) (xs @ t # ys)) = ?evs"
      using nst by (simp add: item_events_def)
    from forEach_ok_extends[OF fe] have ex: "extends w1 ?evs w2" unfolding ie .
    then have tr: "trace w2 = trace w1 @ ?evs" and fl: "files w2 = replay ?evs (files w1)"
      by (simp_all add: extends_def)
    have le: "list_ex (stale E p) (topics (topic_list res))
        \<longleftrightarrow> (\<exists>x \<in> set (xs @ ys). isBefore (parseISO E (created_at x)) (since p))"
      unfolding tp list_ex_stale using ns by auto
    from fe tp have fe': "forEach (topics (topic_list res)) (processTopic E p) w1 = (Inr u, w2)"
      by simp
    have dec: "\<And>k. crawlPage (Suc k) E p page w0 =
                 (if falsy (more_topics_url (topic_list res))
                      \<or> (\<exists>x \<in> set (xs @ ys). isBefore (parseISO E (created_at x)) (since p))
                  then (Done, w2)
                  else crawlPage k E p (page + 1) w2)"
      using crawlPage_decide[OF f fe'] unfolding le .
    have nx: "\<not> falsy (more_topics_url (topic_list res))
                 \<and> (\<forall>x \<in> set (xs @ ys). \<not> isBefore (parseISO E (created_at x)) (since p))
               \<longrightarrow> (\<exists>r tr. trace (snd (crawlPage (Suc (Suc n)) E p page w0))
                      = trace w2 @ Fetch (buildListUrl (tag p) (page + 1)) r # tr)"
    proof
      assume go: "\<not> falsy (more_topics_url (topic_list res))
                 \<and> (\<forall>x \<in> set (xs @ ys). \<not> isBefore (parseISO E (created_at x)) (since p))"
      then have "crawlPage (Suc (Suc n)) E p page w0 = crawlPage (Suc n) E p (page + 1) w2"
        unfolding dec[of "Suc n"] by auto
      then show "\<exists>r tr. trace (snd (crawlPage (Suc (Suc n)) E p page w0))
                      = trace w2 @ Fetch (buildListUrl (tag p) (page + 1)) r # tr"
        using crawlPage_first_fetch[of n E p "page + 1" w2] by simp
    qed
    from tr fl dec[of n] nx
    show "trace w2 = trace w1 @ ?evs
            \<and> files w2 = replay ?evs (files w1)
            \<and> crawlPage (Suc n) E p page w0 =
                 (if falsy (more_topics_url (topic_list res))
                      \<or> (\<exists>x \<in> set (xs @ ys). isBefore (parseISO E (created_at x)) (since p))
                  then (Done, w2)
                  else crawlPage n E p (page + 1) w2)
            \<and> (\<not> falsy (more_topics_url (topic_list res))
                 \<and> (\<forall>x \<in> set (xs @ ys). \<not> isBefore (parseISO E (created_at x)) (since p))
               \<longrightarrow> (\<exists>r tr. trace (snd (crawlPage (Suc (Suc n)) E p page w0))
                      = trace w2 @ Fetch (buildListUrl (tag p) (page + 1)) r # tr))"
      by blast
  qed
  from ns b c d show ?thesis by blast
qed

theorem C10_invalid_date_not_stale_witness:
  "\<not> isBefore (parseISO (env0 undated_first) (created_at topic_undated)) (since params0)
   \<and> processTopic (env0 undated_first) params0 topic_undated world0 =
       (Inr (),
        \<lparr>files = [''/out/cuda_topics.csv'' \<mapsto>
                    ''103,Odd,\"She said \"\"hi\"\"\",soon,cuda'' @ [CHR 0x0A]],
         trace = [Fetch ''https://forums.developer.nvidia.com/t/103.json'' None,
                  AppendFile ''/out/cuda_topics.csv''
                    (''103,Odd,\"She said \"\"hi\"\"\",soon,cuda'' @ [CHR 0x0A]) None]\<rparr>)
   \<and> crawlPage (Suc (Suc 0)) (env0 undated_first) params0 1 world0 =
       (Done,
        \<lparr>files = [''/out/cuda_topics.csv'' \<mapsto>
                    ''103,Odd,\"She said \"\"hi\"\"\",soon,cuda'' @ [CHR 0x0A]],
         trace = [Fetch ''https://forums.developer.nvidia.com/tag/cuda.json?solved=no&page=1'' None,
                  Fetch ''https://forums.developer.nvidia.com/t/103.json'' None,
                  AppendFile ''/out/cuda_topics.csv''
                    (''103,Odd,\"She said \"\"hi\"\"\",soon,cuda'' @ [CHR 0x0A]) None,
                  Fetch ''https://forums.developer.nvidia.com/tag/cuda.json?solved=no&page=2'' None]\<rparr>)"
proof -
  let ?E = "env0 undated_first"
  let ?res = "\<lparr>topic_list = \<lparr>topics = [topic_undated],
                 more_topics_url = Some ''/tag/cuda?page=2''\<rparr>\<rparr>"
  let ?w1 = "snd (fetchJson (fetch_topics ?E) (buildListUrl (tag params0) 1) world0)"
  let ?w2 = "snd (forEach [topic_undated] (processTopic ?E params0) ?w1)"
  have inv: "parseISO ?E (created_at topic_undated) = None"
    by (simp add: fixture4_defs)
  have d: "\<exists>d. detail_of ?E topic_undated = Inr d"
    by (simp add: detail_of_def fixture4_defs settle_def)
  have ok: "\<And>f. appendFile_rejects ?E f (outputFile ?E params0) (row ?E params0 topic_undated) = None"
    by (simp add: fixture4_defs)
  have r: "row ?E params0 topic_undated = ''103,Odd,\"She said \"\"hi\"\"\",soon,cuda'' @ [CHR 0x0A]"
    by (simp add: row_def detail_of_def fixture4_defs run_defs)
  have o: "outputFile ?E params0 = ''/out/cuda_topics.csv''"
    by (simp add: fixture4_defs outputFile_def)
  have u: "buildDetailUrl (topic_id topic_undated) = ''https://forums.developer.nvidia.com/t/103.json''"
    by (simp add: fixture4_defs run_defs)
  have f: "fetchJson (fetch_topics ?E) (buildListUrl (tag params0) 1) world0 = (Inr ?res, ?w1)"
    by (simp add: fixture4_defs run_defs)
  have tp: "topics (topic_list ?res) = [] @ topic_undated # []" by simp
  note c = C10_invalid_date_not_stale[OF inv, where p = params0 and w = world0 and xs = "[]"
      and ys = "[]" and page = 1 and ?w0.0 = world0 and res = ?res and ?w1.0 = ?w1
      and u = "()" and ?w2.0 = ?w2 and n = "Suc 0"]
  note c' = C10_invalid_date_not_stale[OF inv, where p = params0 and w = ?w1]
  from c have a: "\<not> isBefore (parseISO ?E (created_at topic_undated)) (since params0)"
    by blast
  from c d ok have "processTopic ?E params0 topic_undated world0 =
      (Inr (),
       world0\<lparr>files := (files world0)(outputFile ?E params0 \<mapsto>
                 content (files world0) (outputFile ?E params0) @ row ?E params0 topic_undated),
         trace := trace world0 @ [Fetch (buildDetailUrl (topic_id topic_undated)) None,
                   AppendFile (outputFile ?E params0) (row ?E params0 topic_undated) None]\<rparr>)"
    by blast
  then have b: "processTopic ?E params0 topic_undated world0 =
       (Inr (),
        \<lparr>files = [''/out/cuda_topics.csv'' \<mapsto>
                    ''103,Odd,\"She said \"\"hi\"\"\",soon,cuda'' @ [CHR 0x0A]],
         trace = [Fetch ''https://forums.developer.nvidia.com/t/103.json'' None,
                  AppendFile ''/out/cuda_topics.csv''
                    (''103,Odd,\"She said \"\"hi\"\"\",soon,cuda'' @ [CHR 0x0A]) None]\<rparr>)"
    unfolding r o u by (simp add: world0_def content_def)
  from c' d ok have p1: "processTopic ?E params0 topic_undated ?w1 =
      (Inr (),
       ?w1\<lparr>files := (files ?w1)(outputFile ?E params0 \<mapsto>
                 content (files ?w1) (outputFile ?E params0) @ row ?E params0 topic_undated),
         trace := trace ?w1 @ [Fetch (buildDetailUrl (topic_id topic_undated)) None,
                   AppendFile (outputFile ?E params0) (row ?E params0 topic_undated) None]\<rparr>)"
    by blast
  have w1: "?w1 = \<lparr>files = Map.empty,
      trace = [Fetch ''https://forums.developer.nvidia.com/tag/cuda.json?solved=no&page=1'' None]\<rparr>"
    by (simp add: fixture4_defs run_defs)
  have g: "forEach ([] @ topic_undated # []) (processTopic ?E params0) ?w1 = (Inr (), ?w2)"
    using p1 by simp
  have w2: "?w2 = \<lparr>files = [''/out/cuda_topics.csv'' \<mapsto>
                    ''103,Odd,\"She said \"\"hi\"\"\",soon,cuda'' @ [CHR 0x0A]],
         trace = [Fetch ''https://forums.developer.nvidia.com/tag/cuda.json?solved=no&page=1'' None,
                  Fetch ''https://forums.developer.nvidia.com/t/103.json'' None,
                  AppendFile ''/out/cuda_topics.csv''
                    (''103,Odd,\"She said \"\"hi\"\"\",soon,cuda'' @ [CHR 0x0A]) None]\<rparr>"
    unfolding forEach.simps p1 r o u unfolding w1 by (simp add: content_def)
  have nf: "\<not> (falsy (more_topics_url (topic_list ?res))
      \<or> (\<exists>x \<in> set ([] @ [] :: TopicListItem list). isBefore (parseISO ?E (created_at x)) (since params0)))"
    by (simp add: falsy_def)
  note c4 = c[THEN conjunct2, THEN conjunct2, THEN conjunct2, THEN mp,
      OF conjI[OF f conjI[OF tp g]]]
  from c4[THEN conjunct2, THEN conjunct2, THEN conjunct1]
  have "crawlPage (Suc (Suc 0)) ?E params0 1 world0 =
      (if falsy (more_topics_url (topic_list ?res))
            \<or> (\<exists>x \<in> set ([] @ [] :: TopicListItem list). isBefore (parseISO ?E (created_at x)) (since params0))
       then (Done, ?w2)
       else crawlPage (Suc 0) ?E params0 (1 + 1) ?w2)" .
  then have step: "crawlPage (Suc (Suc 0)) ?E params0 1 world0
      = crawlPage (Suc 0) ?E params0 (1 + 1) ?w2"
    unfolding if_not_P[OF nf] .
  have last: "crawlPage (Suc 0) ?E params0 (1 + 1)
       \<lparr>files = [''/out/cuda_topics.csv'' \<mapsto>
                    ''103,Odd,\"She said \"\"hi\"\"\",soon,cuda'' @ [CHR 0x0A]],
         trace = [Fetch ''https://forums.developer.nvidia.com/tag/cuda.json?solved=no&page=1'' None,
                  Fetch ''https://forums.developer.nvidia.com/t/103.json'' None,
                  AppendFile ''/out/cuda_topics.csv''
                    (''103,Odd,\"She said \"\"hi\"\"\",soon,cuda'' @ [CHR 0x0A]) None]\<rparr>
     = (Done,
        \<lparr>files = [''/out/cuda_topics.csv'' \<mapsto>
                    ''103,Odd,\"She said \"\"hi\"\"\",soon,cuda'' @ [CHR 0x0A]],
         trace = [Fetch ''https://forums.developer.nvidia.com/tag/cuda.json?solved=no&page=1'' None,
                  Fetch ''https://forums.developer.nvidia.com/t/103.json'' None,
                  AppendFile ''/out/cuda_topics.csv''
                    (''103,Odd,\"She said \"\"hi\"\"\",soon,cuda'' @ [CHR 0x0A]) None,
                  Fetch ''https://forums.developer.nvidia.com/tag/cuda.json?solved=no&page=2'' None]\<rparr>)"
    by (simp add: fixture4_defs run_defs)
  from step have e: "crawlPage (Suc (Suc 0)) ?E params0 1 world0
     = (Done,
        \<lparr>files = [''/out/cuda_topics.csv'' \<mapsto>
                    ''103,Odd,\"She said \"\"hi\"\"\",soon,cuda'' @ [CHR 0x0A]],
         trace = [Fetch ''https://forums.developer.nvidia.com/tag/cuda.json?solved=no&page=1'' None,
                  Fetch ''https://forums.developer.nvidia.com/t/103.json'' None,
                  AppendFile ''/out/cuda_topics.csv''
                    (''103,Odd,\"She said \"\"hi\"\"\",soon,cuda'' @ [CHR 0x0A]) None,
                  Fetch ''https://forums.developer.nvidia.com/tag/cuda.json?solved=no&page=2'' None]\<rparr>)"
    unfolding w2 last .
  from a b e show ?thesis by blast
qed

end
